theory Spec2Isabelle
  imports Complex_Main "HOL-Library.Stream"
begin

section \<open>Fit parameters (FitParameter.h)\<close>

text \<open>
  A finite \<open>double\<close> is a real number; infinities and NaN are outside the carrier.
  A FitParameter is plain data: its name, its value and its signed error. Of the
  arithmetic only the negation is used here, which is exact on doubles.
\<close>

record FitParameter =
  m_name :: string
  m_value :: real
  m_error :: real

definition getName :: "FitParameter \<Rightarrow> string" where
  "getName p = m_name p"

definition getValue :: "FitParameter \<Rightarrow> real" where
  "getValue p = m_value p"

definition setValue :: "real \<Rightarrow> FitParameter \<Rightarrow> FitParameter" where
  "setValue v p = p\<lparr>m_value := v\<rparr>"

definition getError :: "FitParameter \<Rightarrow> real" where
  "getError p = m_error p"

definition FitParameter_fix :: "FitParameter \<Rightarrow> FitParameter" where
  "FitParameter_fix p = (if m_error p > 0 then p\<lparr>m_error := - m_error p\<rparr> else p)"

definition FitParameter_release :: "FitParameter \<Rightarrow> FitParameter" where
  "FitParameter_release p = (if m_error p < 0 then p\<lparr>m_error := - m_error p\<rparr> else p)"

definition isFloating :: "FitParameter \<Rightarrow> bool" where
  "isFloating p = (m_error p > 0)"

section \<open>The packed Cholesky primitive\<close>

text \<open>
  A packed covariance stores the upper triangle of a symmetric matrix column after
  column: element \<open>(i, j)\<close> with \<open>i \<le> j\<close> is at index \<open>i + j * (j + 1) div 2\<close>, the index
  computed by \<open>printToStream\<close>.
\<close>

type_synonym Parameters = "real list"
type_synonym PackedCovariance = "real list"
type_synonym PackedCovariancePtr = "real list option"

definition packedIndex :: "nat \<Rightarrow> nat \<Rightarrow> nat" where
  "packedIndex i j = (if i \<le> j then i + j * (j + 1) div 2 else j + i * (i + 1) div 2)"

text \<open>
  The Cholesky primitive (LAPACK's \<open>dpptrf\<close>) is external: the source only declares
  it and calls it with \<open>uplo = 'U'\<close>. It works in place on packed upper storage and
  yields a status, zero for success. In the model of the repository's code it is a
  parameter \<open>prim\<close>: given the order and the packed input it gives what it leaves in
  the storage and its status.

  Modelled from the spec: \<open>dpptrf\<close> below is the reference routine in exact
  arithmetic, the instance used for worked inputs and for what holds when nothing
  is rounded. Column \<open>j\<close> is solved against the columns before it (\<open>dtpsv\<close>, upper,
  transposed, non-unit), then the pivot is the diagonal entry minus the squares of the
  column (\<open>ddot\<close>); a pivot that is not positive is stored and stops the routine with
  its one-based number as status.
\<close>

type_synonym Primitive = "nat \<Rightarrow> real list \<Rightarrow> real list \<times> int"

definition dtpsv_row :: "nat \<Rightarrow> real list \<Rightarrow> nat \<Rightarrow> real list" where
  "dtpsv_row jc ap j =
     (let kk = j * (j + 1) div 2;
          temp = foldl (\<lambda>t i. t - ap ! (kk + i) * ap ! (jc + i)) (ap ! (jc + j)) [0..<j]
      in ap[jc + j := temp / ap ! (kk + j)])"

definition dtpsv :: "nat \<Rightarrow> real list \<Rightarrow> nat \<Rightarrow> real list" where
  "dtpsv n ap jc = foldl (dtpsv_row jc) ap [0..<n]"

definition ddot :: "nat \<Rightarrow> real list \<Rightarrow> nat \<Rightarrow> real" where
  "ddot n ap jc = foldl (\<lambda>s i. s + ap ! (jc + i) * ap ! (jc + i)) 0 [0..<n]"

fun dpptrf_loop :: "nat list \<Rightarrow> real list \<Rightarrow> real list \<times> int" where
  "dpptrf_loop [] ap = (ap, 0)"
| "dpptrf_loop (j # js) ap =
     (let jc = j * (j + 1) div 2;
          jj = jc + j;
          ap1 = (if j > 0 then dtpsv j ap jc else ap);
          ajj = ap1 ! jj - ddot j ap1 jc
      in if ajj \<le> 0 then (ap1[jj := ajj], int j + 1)
         else dpptrf_loop js (ap1[jj := sqrt ajj]))"

definition dpptrf :: Primitive where
  "dpptrf n ap = dpptrf_loop [0..<n] ap"

section \<open>Machine arithmetic\<close>

text \<open>
  The product of two doubles is a parameter \<open>dmul\<close> of the code that squares the
  errors. \<open>binary64_mul\<close> is its instance for worked inputs: the exact product rounded
  to the nearest double, ties to even, with gradual underflow (a spacing of
  \<open>2 powr - 1074\<close> at the bottom, 53 significant bits above). A product beyond the
  largest double would be an infinity and is outside the carrier.
\<close>

definition binary64 :: "real \<Rightarrow> real" where
  "binary64 x =
     (if x = 0 then 0
      else
        let q = max (\<lfloor>log 2 \<bar>x\<bar>\<rfloor> - 52) (- 1074);
            r = x / 2 powr (of_int q);
            f = \<lfloor>r\<rfloor>
        in (if r - of_int f < 1 / 2 \<or> (r - of_int f = 1 / 2 \<and> even f)
            then of_int f else of_int f + 1) * 2 powr (of_int q))"

definition binary64_mul :: "real \<Rightarrow> real \<Rightarrow> real" where
  "binary64_mul x y = binary64 (x * y)"

text \<open>
  The source computes sizes and indices in \<open>int\<close>, of 32 bits. A signed overflow is
  undefined in C++; the model ends such a run with \<open>UndefinedBehaviour\<close>.
\<close>

definition INT_MAX :: int where
  "INT_MAX = 2147483647"

section \<open>Function minimum (FunctionMinimum.cc)\<close>

text \<open>
  The source throws \<open>RuntimeError\<close> with a message; the model names the kinds of the
  messages: \<open>InvalidShape\<close> for "parameter and error vectors have incompatible sizes"
  and "parameter and covariance vectors have incompatible sizes", \<open>NotPositiveDefinite\<close>
  for "covariance is not positive definite", \<open>MissingCovariance\<close> for "no covariance
  matrix available", \<open>InternalError\<close> for "internal error nCov ~ nPar".
  \<open>UndefinedBehaviour\<close> stands for what C++ leaves undefined: an index outside a
  vector, an iterator moved past the end, a null pointer dereferenced, a signed
  overflow.
\<close>

datatype error =
    InvalidShape
  | NotPositiveDefinite
  | MissingCovariance
  | InternalError
  | UndefinedBehaviour

text \<open>
  How a call of a function with a result ends: with a value, with an exception, or
  at the closing brace without any \<open>return\<close> statement, so that the caller reads no
  determined value.
\<close>

datatype 'a outcome = Returned 'a | Thrown error | NoReturnValue

record FunctionMinimum =
  m_minValue :: real
  m_where :: Parameters
  m_covar :: PackedCovariancePtr
  m_cholesky :: PackedCovariancePtr

text \<open>The shared Random source: the sequence of normals it still has to give.\<close>

type_synonym Random = "real stream"

definition getNormal :: "Random \<Rightarrow> real \<times> Random" where
  "getNormal rng = (shd rng, stl rng)"

text \<open>
  \<open>choleskyDecomposition\<close> copies its input, recovers the order from the length and
  calls the primitive on the copy. \<open>1 + 8 * nCov\<close> is computed in \<open>int\<close>, and the
  address of entry 0 of the copy is taken, which is undefined for an empty copy.
  The square root is that of the reals, of an integer within the range of \<open>int\<close>.
\<close>

definition choleskyDecomposition ::
  "Primitive \<Rightarrow> PackedCovariance \<Rightarrow> error + PackedCovariancePtr" where
  "choleskyDecomposition prim covar =
     (let cholesky = covar;
          nCov = int (length covar)
      in if 1 + 8 * nCov > INT_MAX then Inl UndefinedBehaviour
         else
           let nPar = \<lfloor>0.5 * sqrt (real_of_int (1 + 8 * nCov))\<rfloor>
           in if nCov \<noteq> nPar * (nPar + 1) div 2 then Inl InternalError
              else if cholesky = [] then Inl UndefinedBehaviour
              else (case prim (nat nPar) cholesky of
                      (ap, info) \<Rightarrow> if 0 \<noteq> info then Inr None else Inr (Some ap)))"

definition FunctionMinimum_ctor :: "real \<Rightarrow> Parameters \<Rightarrow> FunctionMinimum" where
  "FunctionMinimum_ctor minValue wh =
     \<lparr>m_minValue = minValue, m_where = wh, m_covar = None, m_cholesky = None\<rparr>"

definition updateParameters :: "Parameters \<Rightarrow> real \<Rightarrow> FunctionMinimum \<Rightarrow> FunctionMinimum" where
  "updateParameters params fval fm = fm\<lparr>m_minValue := fval, m_where := params\<rparr>"

text \<open>
  \<open>updateCovariance\<close> computes \<open>nPar * (nPar + 1) / 2\<close> in \<open>int\<close> before anything
  else. The square of an error is the product \<open>dmul\<close> of doubles.
\<close>

definition updateCovariance ::
  "(real \<Rightarrow> real \<Rightarrow> real) \<Rightarrow> Primitive \<Rightarrow> PackedCovariance \<Rightarrow> bool \<Rightarrow> FunctionMinimum
     \<Rightarrow> bool outcome \<times> FunctionMinimum" where
  "updateCovariance dmul prim covar errorsOnly fm =
     (let nPar = length (m_where fm)
      in if int nPar * (int nPar + 1) > INT_MAX then (Thrown UndefinedBehaviour, fm)
         else
           let nCovar = nPar * (nPar + 1) div 2
           in if errorsOnly then
                if length covar \<noteq> nPar then (Thrown InvalidShape, fm)
                else if list_ex (\<lambda>x. x \<le> 0) covar then (Returned False, fm)
                else
                  let c = foldl (\<lambda>c i. c[i * (i + 3) div 2 := dmul (covar ! i) (covar ! i)])
                            (replicate nCovar 0) [0..<nPar];
                      fm1 = fm\<lparr>m_covar := Some c\<rparr>
                  in (case choleskyDecomposition prim c of
                        Inl e \<Rightarrow> (Thrown e, fm1)
                      | Inr cholesky \<Rightarrow> (NoReturnValue, fm1\<lparr>m_cholesky := cholesky\<rparr>))
              else
                if length covar \<noteq> nCovar then (Thrown InvalidShape, fm)
                else (case choleskyDecomposition prim covar of
                        Inl e \<Rightarrow> (Thrown e, fm)
                      | Inr None \<Rightarrow> (Returned False, fm)
                      | Inr (Some cholesky) \<Rightarrow>
                          (NoReturnValue,
                           fm\<lparr>m_cholesky := Some cholesky, m_covar := Some covar\<rparr>)))"

text \<open>
  The constructor with a covariance tests the result of \<open>updateCovariance\<close>. Where that
  call ended without a \<open>return\<close> the value tested is not determined: \<open>indet\<close> is the
  value the constructor happens to read.
\<close>

definition FunctionMinimum_ctor_covar ::
  "bool \<Rightarrow> (real \<Rightarrow> real \<Rightarrow> real) \<Rightarrow> Primitive \<Rightarrow> real \<Rightarrow> Parameters \<Rightarrow> PackedCovariance
     \<Rightarrow> bool \<Rightarrow> error + FunctionMinimum" where
  "FunctionMinimum_ctor_covar indet dmul prim minValue wh covar errorsOnly =
     (case updateCovariance dmul prim covar errorsOnly (FunctionMinimum_ctor minValue wh) of
        (Thrown e, fm) \<Rightarrow> Inl e
      | (Returned b, fm) \<Rightarrow> if \<not> b then Inl NotPositiveDefinite else Inr fm
      | (NoReturnValue, fm) \<Rightarrow> if \<not> indet then Inl NotPositiveDefinite else Inr fm)"

text \<open>
  Modelled from the spec: \<open>haveCovariance\<close> is declared in FunctionMinimum.h, which is
  not among the sources; it says whether a covariance is present.
\<close>

definition haveCovariance :: "FunctionMinimum \<Rightarrow> bool" where
  "haveCovariance fm = (m_covar fm \<noteq> None)"

text \<open>
  In \<open>getErrors\<close> the square root, and in \<open>setRandomParameters\<close> the sums and products,
  are exact.
\<close>

fun getErrors_loop :: "nat list \<Rightarrow> PackedCovariance \<Rightarrow> Parameters \<Rightarrow> error + Parameters" where
  "getErrors_loop [] covar errors = Inr errors"
| "getErrors_loop (i # is) covar errors =
     (if i * (i + 3) div 2 < length covar then
        let sigsq = covar ! (i * (i + 3) div 2)
        in getErrors_loop is covar (errors[i := (if sigsq > 0 then sqrt sigsq else 0)])
      else Inl UndefinedBehaviour)"

definition getErrors :: "FunctionMinimum \<Rightarrow> error + Parameters" where
  "getErrors fm =
     (if \<not> haveCovariance fm then Inl MissingCovariance
      else
        let nPar = length (m_where fm)
        in (case m_covar fm of
              None \<Rightarrow> Inl UndefinedBehaviour
            | Some covar \<Rightarrow> getErrors_loop [0..<nPar] covar (replicate nPar 0)))"

text \<open>
  The first loop of \<open>setRandomParameters\<close>: copy the minimum into \<open>params\<close>, draw one
  normal for each parameter and add up the squares.
\<close>

fun fill_loop ::
  "nat list \<Rightarrow> Parameters \<Rightarrow> Parameters \<times> Parameters \<times> real \<times> Random
     \<Rightarrow> error + (Parameters \<times> Parameters \<times> real \<times> Random)" where
  "fill_loop [] wh st = Inr st"
| "fill_loop (i # is) wh (params, gauss, nlWeight, rng) =
     (if i < length params then
        (case getNormal rng of
           (r, rng1) \<Rightarrow>
             fill_loop is wh (params[i := wh ! i], gauss[i := r], nlWeight + r * r, rng1))
      else Inl UndefinedBehaviour)"

text \<open>
  The second loop: the iterator \<open>next\<close> is what is left of the factor; reading it at
  the end is undefined.
\<close>

fun inner_loop ::
  "nat list \<Rightarrow> nat \<Rightarrow> Parameters \<Rightarrow> Parameters \<times> real list
     \<Rightarrow> error + (Parameters \<times> real list)" where
  "inner_loop [] j gauss st = Inr st"
| "inner_loop (i # is) j gauss (params, nxt) =
     (case nxt of
        [] \<Rightarrow> Inl UndefinedBehaviour
      | u # rest \<Rightarrow> inner_loop is j gauss (params[j := params ! j + u * gauss ! i], rest))"

fun outer_loop ::
  "nat list \<Rightarrow> Parameters \<Rightarrow> Parameters \<times> real list \<Rightarrow> error + (Parameters \<times> real list)" where
  "outer_loop [] gauss st = Inr st"
| "outer_loop (j # js) gauss st =
     (case inner_loop [0..<j + 1] j gauss st of
        Inl e \<Rightarrow> Inl e
      | Inr st1 \<Rightarrow> outer_loop js gauss st1)"

definition setRandomParameters ::
  "FunctionMinimum \<Rightarrow> Random \<Rightarrow> Parameters \<Rightarrow> error + (real \<times> Parameters \<times> Random)" where
  "setRandomParameters fm rng params =
     (if \<not> haveCovariance fm then Inl MissingCovariance
      else
        let nPar = length (m_where fm)
        in (case fill_loop [0..<nPar] (m_where fm) (params, replicate nPar 0, 0, rng) of
              Inl e \<Rightarrow> Inl e
            | Inr (params1, gauss, nlWeight, rng1) \<Rightarrow>
                (case m_cholesky fm of
                   None \<Rightarrow> Inl UndefinedBehaviour
                 | Some cholesky \<Rightarrow>
                     (case outer_loop [0..<nPar] gauss (params1, cholesky) of
                        Inl e \<Rightarrow> Inl e
                      | Inr (params2, nxt) \<Rightarrow> Inr (nlWeight / 2, params2, rng1)))))"

section \<open>Notions of the specification\<close>

text \<open>
  The symmetric matrix a packed covariance stands for, its quadratic form, and
  positive definiteness: the form is positive at every vector that is not zero.
\<close>

definition quadForm :: "nat \<Rightarrow> PackedCovariance \<Rightarrow> real list \<Rightarrow> real" where
  "quadForm n C x = (\<Sum>i<n. \<Sum>j<n. x ! i * C ! packedIndex i j * x ! j)"

definition posdef :: "nat \<Rightarrow> PackedCovariance \<Rightarrow> bool" where
  "posdef n C = (\<forall>x. length x = n \<and> (\<exists>i<n. x ! i \<noteq> 0) \<longrightarrow> 0 < quadForm n C x)"

text \<open>
  The invariant of the data model: covariance and factor are both absent or both
  present, and a present factor has a strictly positive diagonal (the entries at the
  packed indices \<open>i * (i + 3) div 2\<close>).
\<close>

definition diagonalPositive :: "real list \<Rightarrow> bool" where
  "diagonalPositive u =
     list_all (\<lambda>i. i * (i + 3) div 2 < length u \<longrightarrow> 0 < u ! (i * (i + 3) div 2))
       [0..<length u]"

definition invariant :: "FunctionMinimum \<Rightarrow> bool" where
  "invariant fm =
     (case (m_covar fm, m_cholesky fm) of
        (None, None) \<Rightarrow> True
      | (Some c, Some u) \<Rightarrow> diagonalPositive u
      | _ \<Rightarrow> False)"

text \<open>
  Notions of the proofs about the primitive. \<open>tri j\<close> is the packed index at which
  column \<open>j\<close> starts. \<open>factored A ap j\<close> says that the first \<open>j\<close> columns of \<open>ap\<close> hold
  the first \<open>j\<close> columns of an upper factor of \<open>A\<close> with a positive diagonal, and that
  the rest of \<open>ap\<close> still is \<open>A\<close>.
\<close>

definition tri :: "nat \<Rightarrow> nat" where
  "tri j = j * (j + 1) div 2"

definition factored :: "real list \<Rightarrow> real list \<Rightarrow> nat \<Rightarrow> bool" where
  "factored A ap j =
     (length ap = length A
      \<and> (\<forall>c<j. \<forall>r\<le>c. (\<Sum>k\<le>r. ap ! (tri r + k) * ap ! (tri c + k)) = A ! (tri c + r))
      \<and> (\<forall>c<j. 0 < ap ! (tri c + c))
      \<and> (\<forall>k. tri j \<le> k \<and> k < length A \<longrightarrow> ap ! k = A ! k))"

text \<open>
  \<open>squaredErrors dmul e\<close> is the packed covariance that the errors-only branch of
  \<open>updateCovariance\<close> builds from the errors \<open>e\<close>.
\<close>

definition squaredErrors :: "(real \<Rightarrow> real \<Rightarrow> real) \<Rightarrow> real list \<Rightarrow> real list" where
  "squaredErrors dmul e =
     foldl (\<lambda>c i. c[i * (i + 3) div 2 := dmul (e ! i) (e ! i)])
       (replicate (tri (length e)) 0) [0..<length e]"

text \<open>
  \<open>diagonalMatrix n d ap\<close>: \<open>ap\<close> is the packed matrix of order \<open>n\<close> with \<open>d\<close> on the
  diagonal and zero above it.
\<close>

definition diagonalMatrix :: "nat \<Rightarrow> (nat \<Rightarrow> real) \<Rightarrow> real list \<Rightarrow> bool" where
  "diagonalMatrix n d ap =
     (length ap = tri n \<and> (\<forall>c<n. \<forall>r\<le>c. ap ! (tri c + r) = (if r = c then d c else 0)))"

section \<open>Packed indices\<close>

lemma tri_0 [simp]: "tri 0 = 0" by (simp add: tri_def)

lemma two_tri: "2 * tri n = n * (n + 1)"
  by (simp add: tri_def)

lemma tri_Suc: "tri (Suc n) = tri n + Suc n"
proof -
  have "2 * tri (Suc n) = 2 * tri n + 2 * Suc n"
    by (simp add: two_tri)
  then show ?thesis by simp
qed

lemma tri_mono: "c \<le> d \<Longrightarrow> tri c \<le> tri d"
proof (induction d)
  case 0
  then show ?case by simp
next
  case (Suc d)
  show ?case
  proof (cases "c = Suc d")
    case True
    then show ?thesis by simp
  next
    case False
    then have "c \<le> d" using Suc.prems by simp
    then have "tri c \<le> tri d" by (rule Suc.IH)
    then show ?thesis by (simp add: tri_Suc)
  qed
qed

lemma tri_less: "c < d \<Longrightarrow> tri c + c < tri d"
proof -
  assume "c < d"
  then have "Suc c \<le> d" by simp
  then have "tri (Suc c) \<le> tri d" by (rule tri_mono)
  then show ?thesis by (simp add: tri_Suc)
qed

lemma tri_inj: 
  assumes "tri c + r = tri d + s" "r \<le> c" "s \<le> d"
  shows "c = d \<and> r = s"
proof -
  have "\<not> c < d" using tri_less [of c d] assms by linarith
  moreover have "\<not> d < c" using tri_less [of d c] assms by linarith
  ultimately have "c = d" by simp
  with assms show ?thesis by simp
qed

lemma diag_index: "i * (i + 3) div 2 = tri i + i"
proof -
  have "i * (i + 3) = i * (i + 1) + 2 * i"
    by (simp add: algebra_simps)
  also have "\<dots> = 2 * tri i + 2 * i"
    by (simp only: two_tri)
  finally show ?thesis by simp
qed

section \<open>The primitive factors its input\<close>

text \<open>
  When the primitive reports status zero it leaves an upper factor of its input with a
  positive diagonal (\<open>dpptrf_factored\<close>), so the input is positive definite
  (\<open>dpptrf_success_posdef\<close>).
\<close>

lemma foldl_minus_sum:
  "foldl (\<lambda>t i. t - f i) a [0..<n] = a - (\<Sum>i<n. f i)" for a :: real
  by (induction n) simp_all

lemma foldl_plus_sum:
  "foldl (\<lambda>s i. s + f i) a [0..<n] = a + (\<Sum>i<n. f i)" for a :: real
  by (induction n) simp_all

lemma dtpsv_row_eq:
  "dtpsv_row jc ap j =
     ap[jc + j := (ap ! (jc + j) - (\<Sum>i<j. ap ! (tri j + i) * ap ! (jc + i))) / ap ! (tri j + j)]"
  by (simp only: dtpsv_row_def Let_def foldl_minus_sum tri_def)

lemma ddot_eq: "ddot n ap jc = (\<Sum>i<n. ap ! (jc + i) * ap ! (jc + i))"
  by (simp add: ddot_def foldl_plus_sum)

lemma dtpsv_0 [simp]: "dtpsv 0 ap jc = ap" by (simp add: dtpsv_def)

lemma dtpsv_Suc: "dtpsv (Suc m) ap jc = dtpsv_row jc (dtpsv m ap jc) m"
  by (simp add: dtpsv_def)

lemma dtpsv_length [simp]: "length (dtpsv m ap jc) = length ap"
  by (induction m) (simp_all add: dtpsv_Suc dtpsv_row_eq)

lemma dtpsv_other: "k < jc \<or> jc + m \<le> k \<Longrightarrow> dtpsv m ap jc ! k = ap ! k"
  by (induction m) (auto simp: dtpsv_Suc dtpsv_row_eq)

lemma dtpsv_solves:
  assumes "m \<le> c" "tri c + m \<le> length ap" "j < m"
  shows "dtpsv m ap (tri c) ! (tri c + j) =
           (ap ! (tri c + j) - (\<Sum>i<j. ap ! (tri j + i) * dtpsv m ap (tri c) ! (tri c + i)))
             / ap ! (tri j + j)"
  using assms
proof (induction m arbitrary: j)
  case 0
  then show ?case by simp
next
  case (Suc m)
  let ?x = "dtpsv m ap (tri c)"
  let ?y = "dtpsv (Suc m) ap (tri c)"
  have y: "?y = ?x[tri c + m := (?x ! (tri c + m) - (\<Sum>i<m. ?x ! (tri m + i) * ?x ! (tri c + i))) / ?x ! (tri m + m)]"
    by (simp only: dtpsv_Suc dtpsv_row_eq)
  have mc: "m < c" using Suc.prems by simp
  have low: "\<And>i. i \<le> m \<Longrightarrow> ?x ! (tri m + i) = ap ! (tri m + i)"
  proof -
    fix i assume "i \<le> m"
    then have "tri m + i < tri c" using tri_less [OF mc] by linarith
    then show "?x ! (tri m + i) = ap ! (tri m + i)" by (simp add: dtpsv_other)
  qed
  have old: "\<And>i. i < m \<Longrightarrow> ?y ! (tri c + i) = ?x ! (tri c + i)"
    by (simp add: y)
  show ?case
  proof (cases "j = m")
    case True
    have "?y ! (tri c + m) = (?x ! (tri c + m) - (\<Sum>i<m. ?x ! (tri m + i) * ?x ! (tri c + i))) / ?x ! (tri m + m)"
      using Suc.prems by (simp add: y)
    also have "?x ! (tri c + m) = ap ! (tri c + m)" by (simp add: dtpsv_other)
    also have "?x ! (tri m + m) = ap ! (tri m + m)" by (simp add: low)
    also have "(\<Sum>i<m. ?x ! (tri m + i) * ?x ! (tri c + i)) = (\<Sum>i<m. ap ! (tri m + i) * ?y ! (tri c + i))"
      by (rule sum.cong) (simp_all add: low old)
    finally show ?thesis using True by simp
  next
    case False
    then have jm: "j < m" using Suc.prems by simp
    have "?y ! (tri c + j) = ?x ! (tri c + j)" using jm by (simp add: old)
    also have "\<dots> = (ap ! (tri c + j) - (\<Sum>i<j. ap ! (tri j + i) * ?x ! (tri c + i))) / ap ! (tri j + j)"
      using Suc.IH [of j] Suc.prems jm by simp
    also have "(\<Sum>i<j. ap ! (tri j + i) * ?x ! (tri c + i)) = (\<Sum>i<j. ap ! (tri j + i) * ?y ! (tri c + i))"
      by (rule sum.cong) (use jm in \<open>simp_all add: old\<close>)
    finally show ?thesis .
  qed
qed

lemma dtpsv_forward:
  assumes "m \<le> c" "tri c + m \<le> length ap" "j < m" "ap ! (tri j + j) \<noteq> 0"
  shows "(\<Sum>k\<le>j. ap ! (tri j + k) * dtpsv m ap (tri c) ! (tri c + k)) = ap ! (tri c + j)"
proof -
  let ?x = "dtpsv m ap (tri c)"
  let ?s = "\<Sum>k<j. ap ! (tri j + k) * ?x ! (tri c + k)"
  have "?x ! (tri c + j) = (ap ! (tri c + j) - ?s) / ap ! (tri j + j)"
    using assms(1-3) by (rule dtpsv_solves)
  then have "ap ! (tri j + j) * ?x ! (tri c + j) = ap ! (tri c + j) - ?s"
    using assms(4) by simp
  moreover have "(\<Sum>k\<le>j. ap ! (tri j + k) * ?x ! (tri c + k)) =
      ?s + ap ! (tri j + j) * ?x ! (tri c + j)"
    by (simp add: lessThan_Suc_atMost [symmetric])
  ultimately show ?thesis by simp
qed

lemma dpptrf_loop_Cons:
  "dpptrf_loop (j # js) ap =
     (let ap1 = dtpsv j ap (tri j);
          ajj = ap1 ! (tri j + j) - (\<Sum>i<j. ap1 ! (tri j + i) * ap1 ! (tri j + i))
      in if ajj \<le> 0 then (ap1[tri j + j := ajj], int j + 1)
         else dpptrf_loop js (ap1[tri j + j := sqrt ajj]))"
proof (cases "j = 0")
  case True
  then show ?thesis by (simp add: Let_def ddot_eq)
next
  case False
  then have "0 < j" by simp
  then show ?thesis by (simp only: dpptrf_loop.simps Let_def ddot_eq tri_def if_True)
qed



lemma factored_0: "factored A A 0"
  by (simp add: factored_def)

lemma factored_step:
  fixes A ap :: "real list" and j :: nat
  defines "x \<equiv> dtpsv j ap (tri j)"
  defines "ajj \<equiv> x ! (tri j + j) - (\<Sum>i<j. x ! (tri j + i) * x ! (tri j + i))"
  assumes fac: "factored A ap j" and len: "tri (Suc j) \<le> length A" and pos: "0 < ajj"
  shows "factored A (x[tri j + j := sqrt ajj]) (Suc j)"
proof -
  let ?y = "x[tri j + j := sqrt ajj]"
  have lenap: "length ap = length A" using fac by (simp add: factored_def)
  have jj: "tri j + j < length ap" using len lenap by (simp add: tri_Suc)
  have lenx: "length x = length ap" by (simp add: x_def)
  have H1: "\<And>c r. c < j \<Longrightarrow> r \<le> c \<Longrightarrow>
      (\<Sum>k\<le>r. ap ! (tri r + k) * ap ! (tri c + k)) = A ! (tri c + r)"
    using fac by (simp add: factored_def)
  have H2: "\<And>c. c < j \<Longrightarrow> 0 < ap ! (tri c + c)"
    using fac by (simp add: factored_def)
  have H3: "\<And>k. tri j \<le> k \<Longrightarrow> k < length A \<Longrightarrow> ap ! k = A ! k"
    using fac by (simp add: factored_def)
  have below: "\<And>k. k < tri j \<Longrightarrow> ?y ! k = ap ! k"
    by (simp add: x_def dtpsv_other)
  have below': "\<And>c r. c < j \<Longrightarrow> r \<le> c \<Longrightarrow> ?y ! (tri c + r) = ap ! (tri c + r)"
  proof -
    fix c r assume "c < j" "r \<le> c"
    then have "tri c + r < tri j" using tri_less [of c j] by linarith
    then show "?y ! (tri c + r) = ap ! (tri c + r)" by (rule below)
  qed
  have col: "\<And>i. i < j \<Longrightarrow> ?y ! (tri j + i) = x ! (tri j + i)"
    by simp
  have diag: "?y ! (tri j + j) = sqrt ajj"
    using jj lenx by simp
  have xjj: "x ! (tri j + j) = A ! (tri j + j)"
  proof -
    have "x ! (tri j + j) = ap ! (tri j + j)" by (simp add: x_def dtpsv_other)
    also have "\<dots> = A ! (tri j + j)" using jj lenap by (intro H3) simp_all
    finally show ?thesis .
  qed
  have above: "\<And>k. tri (Suc j) \<le> k \<Longrightarrow> k < length A \<Longrightarrow> ?y ! k = A ! k"
  proof -
    fix k assume k: "tri (Suc j) \<le> k" "k < length A"
    then have "tri j + j < k" by (simp add: tri_Suc)
    then have "?y ! k = ap ! k" by (simp add: x_def dtpsv_other)
    also have "\<dots> = A ! k" using k \<open>tri j + j < k\<close> by (intro H3) simp_all
    finally show "?y ! k = A ! k" .
  qed
  have prod: "\<And>c r. c < Suc j \<Longrightarrow> r \<le> c \<Longrightarrow>
      (\<Sum>k\<le>r. ?y ! (tri r + k) * ?y ! (tri c + k)) = A ! (tri c + r)"
  proof -
    fix c r assume c: "c < Suc j" and r: "r \<le> c"
    show "(\<Sum>k\<le>r. ?y ! (tri r + k) * ?y ! (tri c + k)) = A ! (tri c + r)"
    proof (cases "c < j")
      case True
      have "(\<Sum>k\<le>r. ?y ! (tri r + k) * ?y ! (tri c + k)) =
            (\<Sum>k\<le>r. ap ! (tri r + k) * ap ! (tri c + k))"
      proof (rule sum.cong)
        fix k assume "k \<in> {..r}"
        then have "k \<le> r" by simp
        then show "?y ! (tri r + k) * ?y ! (tri c + k) = ap ! (tri r + k) * ap ! (tri c + k)"
          using True r below' [of r k] below' [of c k] by simp
      qed simp
      then show ?thesis using H1 [OF True r] by simp
    next
      case False
      then have cj: "c = j" using c by simp
      show ?thesis
      proof (cases "r < j")
        case True
        have "(\<Sum>k\<le>r. ?y ! (tri r + k) * ?y ! (tri c + k)) =
              (\<Sum>k\<le>r. ap ! (tri r + k) * x ! (tri j + k))"
        proof (rule sum.cong)
          fix k assume "k \<in> {..r}"
          then have "k \<le> r" by simp
          then show "?y ! (tri r + k) * ?y ! (tri c + k) = ap ! (tri r + k) * x ! (tri j + k)"
            using True cj below' [of r k] col [of k] by simp
        qed simp
        also have "\<dots> = ap ! (tri j + r)"
          unfolding x_def
        proof (rule dtpsv_forward)
          show "j \<le> j" by simp
          show "tri j + j \<le> length ap" using jj by simp
          show "r < j" by (rule True)
          show "ap ! (tri r + r) \<noteq> 0" using H2 [OF True] by simp
        qed
        also have "\<dots> = A ! (tri j + r)"
          using True jj lenap by (intro H3) simp_all
        finally show ?thesis using cj by simp
      next
        case False
        then have rj: "r = j" using r cj by simp
        have "(\<Sum>k\<le>j. ?y ! (tri j + k) * ?y ! (tri j + k)) =
              (\<Sum>k<j. ?y ! (tri j + k) * ?y ! (tri j + k)) + ?y ! (tri j + j) * ?y ! (tri j + j)"
          by (simp add: lessThan_Suc_atMost [symmetric])
        also have "(\<Sum>k<j. ?y ! (tri j + k) * ?y ! (tri j + k)) =
              (\<Sum>k<j. x ! (tri j + k) * x ! (tri j + k))"
          by (rule sum.cong) simp_all
        also have "?y ! (tri j + j) * ?y ! (tri j + j) = ajj"
          using pos by (simp add: diag)
        finally have "(\<Sum>k\<le>j. ?y ! (tri j + k) * ?y ! (tri j + k)) = x ! (tri j + j)"
          by (simp add: ajj_def)
        then show ?thesis using cj rj xjj by simp
      qed
    qed
  qed
  have dpos: "\<And>c. c < Suc j \<Longrightarrow> 0 < ?y ! (tri c + c)"
  proof -
    fix c assume "c < Suc j"
    show "0 < ?y ! (tri c + c)"
    proof (cases "c < j")
      case True
      then show ?thesis using below' [of c c] H2 [of c] by simp
    next
      case False
      then have "c = j" using \<open>c < Suc j\<close> by simp
      then show ?thesis using diag pos by simp
    qed
  qed
  have "length ?y = length A" using lenx lenap by simp
  then show ?thesis
    unfolding factored_def using prod dpos above by blast
qed

lemma dpptrf_loop_factored:
  "factored A ap j \<Longrightarrow> j \<le> n \<Longrightarrow> tri n \<le> length A \<Longrightarrow>
   dpptrf_loop [j..<n] ap = (u, 0) \<Longrightarrow> factored A u n"
proof (induction "n - j" arbitrary: j ap)
  case 0
  then have "j = n" by simp
  with 0 show ?case by simp
next
  case (Suc d)
  then have jn: "j < n" by simp
  let ?x = "dtpsv j ap (tri j)"
  let ?ajj = "?x ! (tri j + j) - (\<Sum>i<j. ?x ! (tri j + i) * ?x ! (tri j + i))"
  have unf: "dpptrf_loop [j..<n] ap =
      (if ?ajj \<le> 0 then (?x[tri j + j := ?ajj], int j + 1)
       else dpptrf_loop [Suc j..<n] (?x[tri j + j := sqrt ?ajj]))"
    using jn by (simp only: upt_conv_Cons dpptrf_loop_Cons Let_def)
  have pos: "0 < ?ajj"
  proof (rule ccontr)
    assume "\<not> 0 < ?ajj"
    then have "dpptrf_loop [j..<n] ap = (?x[tri j + j := ?ajj], int j + 1)"
      by (simp only: unf) simp
    with Suc.prems(4) show False by simp
  qed
  then have rest: "dpptrf_loop [Suc j..<n] (?x[tri j + j := sqrt ?ajj]) = (u, 0)"
    using Suc.prems(4) by (simp only: unf) simp
  have "tri (Suc j) \<le> tri n" using jn by (intro tri_mono) simp
  then have "tri (Suc j) \<le> length A" using Suc.prems(3) by simp
  then have "factored A (?x[tri j + j := sqrt ?ajj]) (Suc j)"
    using Suc.prems(1) pos by (intro factored_step)
  moreover have "d = n - Suc j" using Suc.hyps(2) by simp
  ultimately show ?case
    using Suc.hyps(1) [of "Suc j" "?x[tri j + j := sqrt ?ajj]"] jn Suc.prems(3) rest by simp
qed

lemma dpptrf_factored:
  "tri n \<le> length A \<Longrightarrow> dpptrf n A = (u, 0) \<Longrightarrow> factored A u n"
  unfolding dpptrf_def
  using dpptrf_loop_factored [where j = 0 and ap = A and A = A and n = n and u = u] factored_0 [of A]
  by simp

lemma factored_entry:
  assumes fac: "factored A u n" and i: "i < n" and j: "j < n"
  shows "A ! packedIndex i j =
    (\<Sum>k<n. (if k \<le> i then u ! (tri i + k) else 0) * (if k \<le> j then u ! (tri j + k) else 0))"
proof -
  have H: "\<And>c r. c < n \<Longrightarrow> r \<le> c \<Longrightarrow>
      (\<Sum>k\<le>r. u ! (tri r + k) * u ! (tri c + k)) = A ! (tri c + r)"
    using fac by (simp add: factored_def)
  have restrict: "\<And>r c. r \<le> c \<Longrightarrow> r < n \<Longrightarrow>
      (\<Sum>k<n. (if k \<le> r then u ! (tri r + k) else 0) * (if k \<le> c then u ! (tri c + k) else 0))
      = (\<Sum>k\<le>r. u ! (tri r + k) * u ! (tri c + k))"
  proof -
    fix r c :: nat assume rc: "r \<le> c" and rn: "r < n"
    have "(\<Sum>k<n. (if k \<le> r then u ! (tri r + k) else 0) * (if k \<le> c then u ! (tri c + k) else 0))
        = (\<Sum>k<n. if k \<in> {..r} then u ! (tri r + k) * u ! (tri c + k) else 0)"
      by (rule sum.cong) (use rc in auto)
    also have "\<dots> = (\<Sum>k\<in>{..<n} \<inter> {..r}. u ! (tri r + k) * u ! (tri c + k))"
      by (simp add: sum.inter_restrict)
    also have "{..<n} \<inter> {..r} = {..r}" using rn by auto
    finally show "(\<Sum>k<n. (if k \<le> r then u ! (tri r + k) else 0) * (if k \<le> c then u ! (tri c + k) else 0))
      = (\<Sum>k\<le>r. u ! (tri r + k) * u ! (tri c + k))" .
  qed
  show ?thesis
  proof (cases "i \<le> j")
    case True
    have "A ! packedIndex i j = A ! (tri j + i)"
      using True by (simp add: packedIndex_def tri_def add.commute)
    also have "\<dots> = (\<Sum>k\<le>i. u ! (tri i + k) * u ! (tri j + k))"
      using H [OF j True] by simp
    finally show ?thesis using restrict [OF True i] by simp
  next
    case False
    then have ji: "j \<le> i" by simp
    have "A ! packedIndex i j = A ! (tri i + j)"
      using False by (simp add: packedIndex_def tri_def add.commute)
    also have "\<dots> = (\<Sum>k\<le>j. u ! (tri j + k) * u ! (tri i + k))"
      using H [OF i ji] by simp
    also have "\<dots> = (\<Sum>k<n. (if k \<le> j then u ! (tri j + k) else 0) * (if k \<le> i then u ! (tri i + k) else 0))"
      using restrict [OF ji j] by simp
    finally show ?thesis by (simp add: mult.commute)
  qed
qed

lemma factored_quadForm:
  assumes fac: "factored A u n"
  shows "quadForm n A x =
    (\<Sum>k<n. (\<Sum>i<n. (if k \<le> i then u ! (tri i + k) else 0) * x ! i)\<^sup>2)"
proof -
  let ?U = "\<lambda>k i. if k \<le> i then u ! (tri i + k) else 0"
  have "quadForm n A x = (\<Sum>i<n. \<Sum>j<n. \<Sum>k<n. (?U k i * x ! i) * (?U k j * x ! j))"
    unfolding quadForm_def
  proof (intro sum.cong refl)
    fix i j assume "i \<in> {..<n}" "j \<in> {..<n}"
    then have "A ! packedIndex i j = (\<Sum>k<n. ?U k i * ?U k j)"
      using factored_entry [OF fac, of i j] by simp
    then show "x ! i * A ! packedIndex i j * x ! j = (\<Sum>k<n. (?U k i * x ! i) * (?U k j * x ! j))"
      by (simp only: sum_distrib_left sum_distrib_right) (simp add: mult_ac)
  qed
  also have "\<dots> = (\<Sum>i<n. \<Sum>k<n. \<Sum>j<n. (?U k i * x ! i) * (?U k j * x ! j))"
    by (intro sum.cong refl sum.swap)
  also have "\<dots> = (\<Sum>k<n. \<Sum>i<n. \<Sum>j<n. (?U k i * x ! i) * (?U k j * x ! j))"
    by (rule sum.swap)
  also have "\<dots> = (\<Sum>k<n. (\<Sum>i<n. ?U k i * x ! i) * (\<Sum>j<n. ?U k j * x ! j))"
    by (simp only: sum_product)
  finally show ?thesis by (simp only: power2_eq_square)
qed

lemma upper_kernel_trivial:
  fixes u x :: "real list"
  assumes dpos: "\<And>c. c < n \<Longrightarrow> 0 < u ! (tri c + c)"
    and zero: "\<And>k. k < n \<Longrightarrow> (\<Sum>i<n. (if k \<le> i then u ! (tri i + k) else 0) * x ! i) = 0"
  shows "m \<le> n \<Longrightarrow> i < n \<Longrightarrow> n - m \<le> i \<Longrightarrow> x ! i = 0"
proof (induction m arbitrary: i)
  case 0
  then show ?case by simp
next
  case (Suc m)
  let ?k = "n - Suc m"
  have kn: "?k < n" using Suc.prems by simp
  show ?case
  proof (cases "i = ?k")
    case False
    then have "n - m \<le> i" using Suc.prems by linarith
    then show ?thesis using Suc.IH [of i] Suc.prems by simp
  next
    case True
    have "(\<Sum>i<n. (if ?k \<le> i then u ! (tri i + ?k) else 0) * x ! i) =
          (\<Sum>i<n. if i = ?k then u ! (tri ?k + ?k) * x ! ?k else 0)"
    proof (rule sum.cong)
      fix l assume "l \<in> {..<n}"
      then have ln: "l < n" by simp
      show "(if ?k \<le> l then u ! (tri l + ?k) else 0) * x ! l =
            (if l = ?k then u ! (tri ?k + ?k) * x ! ?k else 0)"
      proof (cases "?k < l")
        case True
        then have "n - m \<le> l" by linarith
        then have "x ! l = 0" using Suc.IH [of l] Suc.prems ln by simp
        then show ?thesis using True by simp
      next
        case False
        then show ?thesis by auto
      qed
    qed simp
    also have "\<dots> = u ! (tri ?k + ?k) * x ! ?k"
      using kn by simp
    finally have "u ! (tri ?k + ?k) * x ! ?k = 0"
      using zero [OF kn] by simp
    moreover have "0 < u ! (tri ?k + ?k)" using kn by (rule dpos)
    ultimately show ?thesis using True by simp
  qed
qed

lemma factored_posdef:
  assumes fac: "factored A u n"
  shows "posdef n A"
  unfolding posdef_def
proof (intro allI impI)
  fix x :: "real list"
  assume x: "length x = n \<and> (\<exists>i<n. x ! i \<noteq> 0)"
  let ?y = "\<lambda>k. \<Sum>i<n. (if k \<le> i then u ! (tri i + k) else 0) * x ! i"
  have dpos: "\<And>c. c < n \<Longrightarrow> 0 < u ! (tri c + c)"
    using fac by (simp add: factored_def)
  have "\<exists>k<n. ?y k \<noteq> 0"
  proof (rule ccontr)
    assume "\<not> (\<exists>k<n. ?y k \<noteq> 0)"
    then have zero: "\<And>k. k < n \<Longrightarrow> ?y k = 0" by blast
    have "\<And>i. i < n \<Longrightarrow> x ! i = 0"
      using upper_kernel_trivial [of n u x n, OF dpos zero] by simp
    with x show False by blast
  qed
  then obtain k where k: "k < n" "?y k \<noteq> 0" by blast
  have "0 < (\<Sum>k<n. (?y k)\<^sup>2)"
  proof (rule sum_pos2 [of _ k])
    show "finite {..<n}" by simp
    show "k \<in> {..<n}" using k by simp
    show "0 < (?y k)\<^sup>2" using k by simp
    show "\<And>i. i \<in> {..<n} \<Longrightarrow> 0 \<le> (?y i)\<^sup>2" by simp
  qed
  then show "0 < quadForm n A x"
    by (simp only: factored_quadForm [OF fac])
qed

lemma dpptrf_success_posdef:
  "tri n \<le> length A \<Longrightarrow> snd (dpptrf n A) = 0 \<Longrightarrow> posdef n A"
  using dpptrf_factored [of n A "fst (dpptrf n A)"] factored_posdef [of A "fst (dpptrf n A)" n]
  by (simp add: prod_eq_iff)

section \<open>Diagonal covariances\<close>

text \<open>
  On a diagonal matrix with a positive diagonal the primitive reports status zero and
  leaves the square roots on the diagonal.
\<close>

lemma tri_diag_bound: "tri i + i < tri n \<Longrightarrow> i < n"
proof (rule ccontr)
  assume a: "tri i + i < tri n" and "\<not> i < n"
  then have "tri n \<le> tri i" by (intro tri_mono) simp
  with a show False by simp
qed

lemma diagonal_dtpsv:
  assumes d: "diagonalMatrix n d ap" and j: "j < n"
  shows "m \<le> j \<Longrightarrow> dtpsv m ap (tri j) = ap"
proof (induction m)
  case 0
  then show ?case by simp
next
  case (Suc m)
  then have mj: "m < j" by simp
  have off: "\<And>r. r < j \<Longrightarrow> ap ! (tri j + r) = 0"
    using d j by (simp add: diagonalMatrix_def)
  have "(\<Sum>i<m. ap ! (tri m + i) * ap ! (tri j + i)) = 0"
    using mj by (intro sum.neutral) (simp add: off)
  then have "dtpsv_row (tri j) ap m = ap[tri j + m := 0]"
    using mj by (simp add: dtpsv_row_eq off)
  also have "\<dots> = ap"
    using mj off [of m] by (metis list_update_id)
  finally show ?case using Suc by (simp add: dtpsv_Suc)
qed

lemma diagonal_step:
  assumes d: "diagonalMatrix n d ap" and j: "j < n" and pos: "0 < d j"
  shows "dpptrf_loop (j # js) ap = dpptrf_loop js (ap[tri j + j := sqrt (d j)])"
    and "diagonalMatrix n (d(j := sqrt (d j))) (ap[tri j + j := sqrt (d j)])"
proof -
  have x: "dtpsv j ap (tri j) = ap" using d j by (rule diagonal_dtpsv) simp
  have off: "\<And>r. r < j \<Longrightarrow> ap ! (tri j + r) = 0"
    using d j by (simp add: diagonalMatrix_def)
  have dj: "ap ! (tri j + j) = d j"
    using d j by (simp add: diagonalMatrix_def)
  have "(\<Sum>i<j. ap ! (tri j + i) * ap ! (tri j + i)) = 0"
    by (intro sum.neutral) (simp add: off)
  then show "dpptrf_loop (j # js) ap = dpptrf_loop js (ap[tri j + j := sqrt (d j)])"
    using pos by (subst dpptrf_loop_Cons) (simp add: Let_def x dj)
  have len: "length ap = tri n" using d by (simp add: diagonalMatrix_def)
  have jj: "tri j + j < length ap" using tri_less [OF j] len by simp
  show "diagonalMatrix n (d(j := sqrt (d j))) (ap[tri j + j := sqrt (d j)])"
    unfolding diagonalMatrix_def
  proof (intro conjI allI impI)
    show "length (ap[tri j + j := sqrt (d j)]) = tri n" using len by simp
  next
    fix c r assume c: "c < n" and r: "r \<le> c"
    show "ap[tri j + j := sqrt (d j)] ! (tri c + r) =
          (if r = c then (d(j := sqrt (d j))) c else 0)"
    proof (cases "tri c + r = tri j + j")
      case True
      then have "c = j \<and> r = j" using r by (intro tri_inj) simp_all
      then show ?thesis using jj by simp
    next
      case False
      then have "\<not> (c = j \<and> r = c)" by auto
      moreover have "ap ! (tri c + r) = (if r = c then d c else 0)"
        using d c r by (simp add: diagonalMatrix_def)
      ultimately show ?thesis using False by auto
    qed
  qed
qed

lemma diagonal_loop:
  "diagonalMatrix n d ap \<Longrightarrow> j \<le> n \<Longrightarrow> (\<forall>c. j \<le> c \<and> c < n \<longrightarrow> 0 < d c) \<Longrightarrow>
   \<exists>u. dpptrf_loop [j..<n] ap = (u, 0)
     \<and> diagonalMatrix n (\<lambda>c. if j \<le> c then sqrt (d c) else d c) u"
proof (induction "n - j" arbitrary: j d ap)
  case 0
  then have jn: "j = n" by simp
  have "diagonalMatrix n (\<lambda>c. if j \<le> c then sqrt (d c) else d c) ap"
    using "0.prems"(1) jn by (simp add: diagonalMatrix_def)
  then show ?case using jn by simp
next
  case (Suc k)
  then have jn: "j < n" by simp
  have pos: "0 < d j" using Suc.prems(3) jn by simp
  let ?ap = "ap[tri j + j := sqrt (d j)]"
  let ?d = "d(j := sqrt (d j))"
  have step: "dpptrf_loop [j..<n] ap = dpptrf_loop [Suc j..<n] ?ap"
    using diagonal_step(1) [OF Suc.prems(1) jn pos] jn by (simp only: upt_conv_Cons)
  have dm: "diagonalMatrix n ?d ?ap"
    using Suc.prems(1) jn pos by (rule diagonal_step(2))
  have "k = n - Suc j" using Suc.hyps(2) by simp
  moreover have "\<forall>c. Suc j \<le> c \<and> c < n \<longrightarrow> 0 < ?d c"
    using Suc.prems(3) by simp
  ultimately obtain u where u: "dpptrf_loop [Suc j..<n] ?ap = (u, 0)"
      "diagonalMatrix n (\<lambda>c. if Suc j \<le> c then sqrt (?d c) else ?d c) u"
    using Suc.hyps(1) [of "Suc j" ?d ?ap] dm jn by auto
  have "(\<lambda>c. if Suc j \<le> c then sqrt (?d c) else ?d c) = (\<lambda>c. if j \<le> c then sqrt (d c) else d c)"
    by (rule ext) (auto simp: not_less_eq_eq)
  with u step show ?case by simp
qed

lemma diagonal_dpptrf:
  assumes "diagonalMatrix n d ap" "\<forall>c<n. 0 < d c"
  shows "\<exists>u. dpptrf n ap = (u, 0) \<and> diagonalMatrix n (\<lambda>c. sqrt (d c)) u"
  using diagonal_loop [of n d ap 0] assms by (simp add: dpptrf_def)

section \<open>Recovering the order of a packed matrix\<close>

lemma int_tri: "int (tri n) = int n * (int n + 1) div 2"
  by (simp add: tri_def zdiv_int algebra_simps)

lemma nPar_recover:
  "\<lfloor>0.5 * sqrt (real_of_int (1 + 8 * int (tri n)))\<rfloor> = int n"
proof -
  have "8 * tri n = 4 * (n * (n + 1))"
    using two_tri [of n] by linarith
  then have "int (8 * tri n) = int (4 * (n * (n + 1)))"
    by (rule arg_cong)
  then have "1 + 8 * int (tri n) = (2 * int n + 1)\<^sup>2"
    by (simp add: power2_eq_square algebra_simps)
  then have "sqrt (real_of_int (1 + 8 * int (tri n))) = 2 * real n + 1"
    by simp
  moreover have "\<lfloor>0.5 * (2 * real n + 1)\<rfloor> = int n"
    by (rule floor_unique) simp_all
  ultimately show ?thesis by simp
qed

lemma tri_pos: "0 < n \<Longrightarrow> 0 < tri n"
  by (cases n) (simp_all add: tri_Suc)

lemma int_two_tri: "int n * (int n + 1) = 2 * int (tri n)"
proof -
  have "int (n * (n + 1)) = int (2 * tri n)" by (simp only: two_tri)
  then show ?thesis by (simp add: algebra_simps)
qed

lemma order_in_range:
  "1 + 8 * int (tri n) \<le> INT_MAX \<Longrightarrow> \<not> int n * (int n + 1) > INT_MAX"
  using int_two_tri [of n] by linarith

lemma choleskyDecomposition_tri:
  assumes "length covar = tri n" and "0 < n" and "1 + 8 * int (length covar) \<le> INT_MAX"
  shows "choleskyDecomposition prim covar =
    (if snd (prim n covar) = 0 then Inr (Some (fst (prim n covar))) else Inr None)"
proof -
  have fl: "\<lfloor>0.5 * sqrt (real_of_int (1 + 8 * int (length covar)))\<rfloor> = int n"
    using assms(1) nPar_recover [of n] by simp
  have ne: "covar \<noteq> []" using assms(1,2) tri_pos [of n] by auto
  have r: "\<not> 1 + 8 * int (length covar) > INT_MAX" using assms(3) by simp
  have t: "int (length covar) = int n * (int n + 1) div 2"
    using assms(1) by (simp only: int_tri)
  show ?thesis
    unfolding choleskyDecomposition_def Let_def
    by (simp only: r fl if_False) (simp add: t ne split: prod.splits)
qed


lemma choleskyDecomposition_overflow:
  "INT_MAX < 1 + 8 * int (length covar) \<Longrightarrow>
     choleskyDecomposition prim covar = Inl UndefinedBehaviour"
  by (simp add: choleskyDecomposition_def Let_def)


section \<open>The branches of updateCovariance\<close>

lemma updateCovariance_True:
  "updateCovariance dmul prim covar True fm =
     (if int (length (m_where fm)) * (int (length (m_where fm)) + 1) > INT_MAX
      then (Thrown UndefinedBehaviour, fm)
      else if length covar \<noteq> length (m_where fm) then (Thrown InvalidShape, fm)
      else if list_ex (\<lambda>x. x \<le> 0) covar then (Returned False, fm)
      else (case choleskyDecomposition prim (squaredErrors dmul covar) of
              Inl e \<Rightarrow> (Thrown e, fm\<lparr>m_covar := Some (squaredErrors dmul covar)\<rparr>)
            | Inr cholesky \<Rightarrow>
                (NoReturnValue,
                 fm\<lparr>m_covar := Some (squaredErrors dmul covar), m_cholesky := cholesky\<rparr>)))"
proof (cases "length covar = length (m_where fm)")
  case True
  have s: "squaredErrors dmul covar =
      foldl (\<lambda>c i. c[i * (i + 3) div 2 := dmul (covar ! i) (covar ! i)])
        (replicate (length (m_where fm) * (length (m_where fm) + 1) div 2) 0)
        [0..<length (m_where fm)]"
    unfolding squaredErrors_def tri_def True ..
  show ?thesis unfolding updateCovariance_def Let_def s by simp
next
  case False
  then show ?thesis unfolding updateCovariance_def Let_def by simp
qed

lemma updateCovariance_False:
  "updateCovariance dmul prim covar False fm =
     (if int (length (m_where fm)) * (int (length (m_where fm)) + 1) > INT_MAX
      then (Thrown UndefinedBehaviour, fm)
      else if length covar \<noteq> tri (length (m_where fm)) then (Thrown InvalidShape, fm)
      else (case choleskyDecomposition prim covar of
              Inl e \<Rightarrow> (Thrown e, fm)
            | Inr None \<Rightarrow> (Returned False, fm)
            | Inr (Some cholesky) \<Rightarrow>
                (NoReturnValue, fm\<lparr>m_cholesky := Some cholesky, m_covar := Some covar\<rparr>)))"
  unfolding updateCovariance_def tri_def Let_def by simp

lemma updateCovariance_never_true:
  "fst (updateCovariance dmul prim covar errorsOnly fm) \<noteq> Returned True"
  by (cases errorsOnly)
    (simp_all add: updateCovariance_True updateCovariance_False
      split: sum.splits option.splits)

section \<open>Worked inputs\<close>

lemma sqrt_9: "sqrt 9 = 3"
  by (rule real_sqrt_unique) simp_all

lemma dpptrf_example_ok: "dpptrf 2 [4, 2, 10] = ([2, 1, 3], 0)"
  by (simp add: dpptrf_def upt_rec dtpsv_def dtpsv_row_def ddot_def Let_def sqrt_9)

lemma dpptrf_example_fail: "dpptrf 2 [1, 2, 1] = ([1, 2, - 3], 2)"
  by (simp add: dpptrf_def upt_rec dtpsv_def dtpsv_row_def ddot_def Let_def)



lemma lessThan_2: "{..<2::nat} = {0, 1}" by auto

lemma not_posdef_example: "\<not> posdef 2 [1, 2, 1]"
proof
  assume "posdef 2 [1, 2, 1]"
  then have "length [1, - 1 :: real] = 2 \<and> (\<exists>i<2. [1, - 1 :: real] ! i \<noteq> 0)
      \<longrightarrow> 0 < quadForm 2 [1, 2, 1] [1, - 1]"
    unfolding posdef_def by blast
  moreover have "\<exists>i<2::nat. [1, - 1 :: real] ! i \<noteq> 0"
    by (rule exI [of _ 0]) simp
  ultimately have "0 < quadForm 2 [1, 2, 1] [1, - 1]" by simp
  moreover have "quadForm 2 [1, 2, 1] [1, - 1] = - 2"
    by (simp add: quadForm_def lessThan_2 packedIndex_def)
  ultimately show False by simp
qed

section \<open>The loops of sampling and of the errors\<close>



lemma fill_loop_short:
  "a \<le> b \<Longrightarrow> length params < b \<Longrightarrow> a \<le> length params \<Longrightarrow>
   fill_loop [a..<b] wh (params, gauss, w, rng) = Inl UndefinedBehaviour"
proof (induction "b - a" arbitrary: a params gauss w rng)
  case 0
  then show ?case by simp
next
  case (Suc d)
  then have ab: "a < b" by simp
  show ?case
  proof (cases "a < length params")
    case False
    then show ?thesis using ab by (simp add: upt_conv_Cons)
  next
    case True
    have "fill_loop [a..<b] wh (params, gauss, w, rng) =
        fill_loop [Suc a..<b] wh (params[a := wh ! a], gauss[a := shd rng],
          w + shd rng * shd rng, stl rng)"
      using ab True by (simp add: upt_conv_Cons getNormal_def)
    also have "\<dots> = Inl UndefinedBehaviour"
      using Suc.hyps(2) Suc.prems True ab by (intro Suc.hyps(1)) simp_all
    finally show ?thesis .
  qed
qed





lemma getErrors_loop_append:
  "getErrors_loop (xs @ ys) covar errors =
     (case getErrors_loop xs covar errors of
        Inl e \<Rightarrow> Inl e | Inr errors1 \<Rightarrow> getErrors_loop ys covar errors1)"
  by (induction xs arbitrary: errors) (simp_all add: Let_def)

lemma getErrors_loop_upt:
  assumes "n \<le> length errors"
  shows "getErrors_loop [0..<n] covar errors =
     (if tri n \<le> length covar
      then Inr (map (\<lambda>i. if i < n
                          then (if covar ! (i * (i + 3) div 2) > 0
                                then sqrt (covar ! (i * (i + 3) div 2)) else 0)
                          else errors ! i) [0..<length errors])
      else Inl UndefinedBehaviour)"
  using assms
proof (induction n)
  case 0
  then show ?case by (simp add: map_nth)
next
  case (Suc n)
  let ?f = "\<lambda>i. if covar ! (i * (i + 3) div 2) > 0 then sqrt (covar ! (i * (i + 3) div 2)) else 0"
  let ?e = "map (\<lambda>i. if i < n then ?f i else errors ! i) [0..<length errors]"
  have IH: "getErrors_loop [0..<n] covar errors =
      (if tri n \<le> length covar then Inr ?e else Inl UndefinedBehaviour)"
    using Suc by simp
  have e: "?e[n := ?f n] = map (\<lambda>i. if i < Suc n then ?f i else errors ! i) [0..<length errors]"
    by (rule nth_equalityI) (auto simp: nth_list_update less_Suc_eq)
  have cond: "n * (n + 3) div 2 < length covar \<longleftrightarrow> tri (Suc n) \<le> length covar"
    by (simp only: diag_index tri_Suc) linarith
  show ?case
  proof (cases "tri (Suc n) \<le> length covar")
    case True
    then have "tri n \<le> length covar" by (simp add: tri_Suc)
    then have "getErrors_loop [0..<Suc n] covar errors = getErrors_loop [n] covar ?e"
      by (simp add: getErrors_loop_append IH)
    also have "\<dots> = Inr (?e[n := ?f n])"
      using True cond by (simp add: Let_def)
    finally show ?thesis using True by (simp only: e if_True)
  next
    case False
    then have "\<not> n * (n + 3) div 2 < length covar" using cond by simp
    then show ?thesis
      using False by (simp add: getErrors_loop_append IH)
  qed
qed

lemma getErrors_eq:
  assumes "m_covar fm = Some covar"
  shows "getErrors fm =
     (if tri (length (m_where fm)) \<le> length covar
      then Inr (map (\<lambda>i. if covar ! (i * (i + 3) div 2) > 0
                          then sqrt (covar ! (i * (i + 3) div 2)) else 0)
                  [0..<length (m_where fm)])
      else Inl UndefinedBehaviour)"
proof -
  let ?n = "length (m_where fm)"
  let ?f = "\<lambda>i. if covar ! (i * (i + 3) div 2) > 0 then sqrt (covar ! (i * (i + 3) div 2)) else 0"
  have m: "map (\<lambda>i. if i < ?n then ?f i else replicate ?n 0 ! i) [0..<?n] = map ?f [0..<?n]"
    by (rule nth_equalityI) simp_all
  have loop: "getErrors_loop [0..<?n] covar (replicate ?n 0) =
      (if tri ?n \<le> length covar then Inr (map ?f [0..<?n]) else Inl UndefinedBehaviour)"
    using getErrors_loop_upt [of ?n "replicate ?n 0" covar] m by simp
  show ?thesis
    unfolding getErrors_def haveCovariance_def Let_def
    using assms by (simp add: loop)
qed


lemma setRandomParameters_short:
  assumes "haveCovariance fm" "length dst < length (m_where fm)"
  shows "setRandomParameters fm rng dst = Inl UndefinedBehaviour"
proof -
  have "fill_loop [0..<length (m_where fm)] (m_where fm)
      (dst, replicate (length (m_where fm)) 0, 0, rng) = Inl UndefinedBehaviour"
    using assms(2) by (intro fill_loop_short) simp_all
  then show ?thesis using assms(1) by (simp add: setRandomParameters_def)
qed

lemma fill_loop_error: "fill_loop is wh st = Inl e \<Longrightarrow> e = UndefinedBehaviour"
proof (induction "is" arbitrary: st)
  case Nil
  then show ?case by simp
next
  case (Cons i "is")
  obtain params gauss nlWeight rng where st: "st = (params, gauss, nlWeight, rng)"
    by (cases st) auto
  show ?case
    using Cons.prems Cons.IH by (auto simp: st split: if_splits prod.splits)
qed




lemma setRandomParameters_null:
  assumes "haveCovariance fm" "m_cholesky fm = None"
  shows "setRandomParameters fm rng dst = Inl UndefinedBehaviour"
proof (cases "fill_loop [0..<length (m_where fm)] (m_where fm)
    (dst, replicate (length (m_where fm)) 0, 0, rng)")
  case (Inl e)
  then have "e = UndefinedBehaviour" by (rule fill_loop_error)
  then show ?thesis using assms Inl by (simp add: setRandomParameters_def)
next
  case (Inr st)
  then show ?thesis using assms by (simp add: setRandomParameters_def split: prod.splits)
qed

section \<open>Building a diagonal covariance\<close>

lemma diagonal_builder:
  assumes "m \<le> n"
  shows "length (foldl (\<lambda>c i. c[i * (i + 3) div 2 := f i]) (replicate (tri n) 0) [0..<m]) = tri n
     \<and> (\<forall>c<n. \<forall>r\<le>c.
          foldl (\<lambda>c i. c[i * (i + 3) div 2 := f i]) (replicate (tri n) (0::real)) [0..<m]
            ! (tri c + r) = (if r = c \<and> c < m then f c else 0))"
  using assms
proof (induction m)
  case 0
  show ?case
  proof (intro conjI allI impI)
    fix c r assume "c < n" "r \<le> c"
    then have "tri c + r < tri n" using tri_less [of c n] by linarith
    then show "foldl (\<lambda>c i. c[i * (i + 3) div 2 := f i]) (replicate (tri n) (0::real)) [0..<0]
            ! (tri c + r) = (if r = c \<and> c < 0 then f c else 0)"
      by simp
  qed simp
next
  case (Suc m)
  let ?b = "foldl (\<lambda>c i. c[i * (i + 3) div 2 := f i]) (replicate (tri n) (0::real)) [0..<m]"
  have IH1: "length ?b = tri n" and
    IH2: "\<And>c r. c < n \<Longrightarrow> r \<le> c \<Longrightarrow> ?b ! (tri c + r) = (if r = c \<and> c < m then f c else 0)"
    using Suc by simp_all
  have step: "foldl (\<lambda>c i. c[i * (i + 3) div 2 := f i]) (replicate (tri n) (0::real)) [0..<Suc m]
      = ?b[tri m + m := f m]"
    by (simp add: diag_index)
  have mn: "m < n" using Suc.prems by simp
  have mm: "tri m + m < length ?b" using tri_less [OF mn] IH1 by simp
  show ?case
  proof (intro conjI allI impI)
    show "length (foldl (\<lambda>c i. c[i * (i + 3) div 2 := f i]) (replicate (tri n) (0::real))
        [0..<Suc m]) = tri n"
      by (simp only: step length_list_update IH1)
  next
    fix c r assume c: "c < n" and r: "r \<le> c"
    show "foldl (\<lambda>c i. c[i * (i + 3) div 2 := f i]) (replicate (tri n) (0::real)) [0..<Suc m]
            ! (tri c + r) = (if r = c \<and> c < Suc m then f c else 0)"
    proof (cases "tri c + r = tri m + m")
      case True
      then have "c = m \<and> r = m" using r by (intro tri_inj) simp_all
      then show ?thesis using mm by (simp only: step) simp
    next
      case False
      then have "\<not> (c = m \<and> r = c)" by auto
      then show ?thesis
        using False IH2 [OF c r] by (simp only: step) (auto simp: less_Suc_eq)
    qed
  qed
qed

lemma diagonal_builder_matrix:
  "diagonalMatrix n f
     (foldl (\<lambda>c i. c[i * (i + 3) div 2 := f i]) (replicate (tri n) 0) [0..<n])"
  using diagonal_builder [of n n f] by (simp add: diagonalMatrix_def)

lemma diagonalMatrix_cong:
  "diagonalMatrix n d u \<Longrightarrow> (\<And>c. c < n \<Longrightarrow> d c = e c) \<Longrightarrow> diagonalMatrix n e u"
  by (simp add: diagonalMatrix_def)

section \<open>The covariance of a vector of errors\<close>

lemma tri_decompose: "k < tri n \<Longrightarrow> \<exists>c<n. \<exists>r\<le>c. k = tri c + r"
proof (induction n)
  case 0
  then show ?case by simp
next
  case (Suc n)
  show ?case
  proof (cases "k < tri n")
    case True
    then obtain c r where "c < n" "r \<le> c" "k = tri c + r" using Suc.IH by blast
    then show ?thesis using less_Suc_eq by blast
  next
    case False
    then have "k - tri n \<le> n" "k = tri n + (k - tri n)"
      using Suc.prems by (simp_all add: tri_Suc)
    then show ?thesis by blast
  qed
qed

lemma diagonalMatrix_off_diagonal:
  assumes "diagonalMatrix n d ap" "k < length ap" "\<forall>i<n. k \<noteq> i * (i + 3) div 2"
  shows "ap ! k = 0"
proof -
  have "k < tri n" using assms(1,2) by (simp add: diagonalMatrix_def)
  then obtain c r where cr: "c < n" "r \<le> c" "k = tri c + r"
    using tri_decompose by blast
  have "r \<noteq> c" using assms(3) cr by (auto simp: diag_index)
  then show ?thesis using assms(1) cr by (simp add: diagonalMatrix_def)
qed

lemma diagonalMatrix_errors:
  assumes c: "diagonalMatrix (length e) (\<lambda>i. e ! i * e ! i) c"
    and pos: "\<forall>x\<in>set e. 0 < x"
    and fm: "m_covar fm = Some c" "length (m_where fm) = length e"
  shows "getErrors fm = Inr e"
proof -
  let ?n = "length e"
  have d: "\<And>i. i < ?n \<Longrightarrow> c ! (i * (i + 3) div 2) = e ! i * e ! i"
    using c by (simp add: diagonalMatrix_def diag_index)
  have p: "\<And>i. i < ?n \<Longrightarrow> 0 < e ! i" using pos by simp
  have "tri ?n \<le> length c" using c by (simp add: diagonalMatrix_def)
  then have "getErrors fm =
      Inr (map (\<lambda>i. if c ! (i * (i + 3) div 2) > 0 then sqrt (c ! (i * (i + 3) div 2)) else 0)
             [0..<?n])"
    using getErrors_eq [OF fm(1)] fm(2) by simp
  moreover have "map (\<lambda>i. if c ! (i * (i + 3) div 2) > 0
                          then sqrt (c ! (i * (i + 3) div 2)) else 0) [0..<?n] = e"
  proof (rule nth_equalityI)
    fix i assume "i < length (map (\<lambda>i. if c ! (i * (i + 3) div 2) > 0
                          then sqrt (c ! (i * (i + 3) div 2)) else 0) [0..<?n])"
    then have i: "i < ?n" by simp
    then have "0 < e ! i * e ! i" using p by simp
    then show "map (\<lambda>i. if c ! (i * (i + 3) div 2) > 0
                          then sqrt (c ! (i * (i + 3) div 2)) else 0) [0..<?n] ! i = e ! i"
      using i d [OF i] p [OF i] by (simp add: less_imp_le)
  qed simp
  ultimately show ?thesis by simp
qed

section \<open>Positive definite matrices are factored\<close>

text \<open>
  The converse: every pivot of a positive definite matrix is the value of its quadratic
  form at a vector that is not zero, so no pivot stops the primitive. The model of the
  primitive so meets the contract the specification gives: status zero exactly for the
  positive definite matrices (\<open>dpptrf_status_iff\<close>).
\<close>

lemma upper_solve:
  fixes U :: "nat \<Rightarrow> nat \<Rightarrow> real"
  assumes "\<forall>i<j. U i i \<noteq> 0"
  shows "\<exists>v. \<forall>k<j. (\<Sum>i<j. (if k \<le> i then U k i else 0) * v i) = rhs k"
  using assms
proof (induction j arbitrary: rhs)
  case 0
  then show ?case by simp
next
  case (Suc j)
  define vj where "vj = rhs j / U j j"
  have "\<forall>i<j. U i i \<noteq> 0" using Suc.prems by simp
  then obtain v where v: "\<forall>k<j. (\<Sum>i<j. (if k \<le> i then U k i else 0) * v i) = rhs k - U k j * vj"
    using Suc.IH [of "\<lambda>k. rhs k - U k j * vj"] by blast
  let ?v = "v(j := vj)"
  have same: "\<And>k. (\<Sum>i<j. (if k \<le> i then U k i else 0) * ?v i) =
      (\<Sum>i<j. (if k \<le> i then U k i else 0) * v i)"
    by (rule sum.cong) simp_all
  have "\<forall>k<Suc j. (\<Sum>i<Suc j. (if k \<le> i then U k i else 0) * ?v i) = rhs k"
  proof (intro allI impI)
    fix k assume k: "k < Suc j"
    show "(\<Sum>i<Suc j. (if k \<le> i then U k i else 0) * ?v i) = rhs k"
    proof (cases "k = j")
      case True
      have "(\<Sum>i<j. (if j \<le> i then U j i else 0) * ?v i) = 0"
        by (rule sum.neutral) simp
      moreover have "U j j \<noteq> 0" using Suc.prems by simp
      ultimately show ?thesis using True by (simp add: vj_def)
    next
      case False
      then have kj: "k < j" using k by simp
      then show ?thesis using v same [of k] by simp
    qed
  qed
  then show ?case by blast
qed

lemma packedIndex_sym: "packedIndex i j = packedIndex j i"
  by (simp add: packedIndex_def)

lemma packedIndex_tri: "r \<le> c \<Longrightarrow> packedIndex r c = tri c + r"
  by (simp add: packedIndex_def tri_def)

lemma quadForm_support:
  assumes "m \<le> n" "\<And>i. m \<le> i \<Longrightarrow> i < n \<Longrightarrow> z ! i = 0"
  shows "quadForm n A z = quadForm m A z"
proof -
  have sub: "{..<m} \<subseteq> {..<n}" using assms(1) by auto
  have inner: "\<And>i. (\<Sum>j<n. z ! i * A ! packedIndex i j * z ! j) =
      (\<Sum>j<m. z ! i * A ! packedIndex i j * z ! j)"
    by (rule sum.mono_neutral_right [OF _ sub]) (use assms(2) in auto)
  have "quadForm n A z = (\<Sum>i<n. \<Sum>j<m. z ! i * A ! packedIndex i j * z ! j)"
    by (simp only: quadForm_def inner)
  also have "\<dots> = (\<Sum>i<m. \<Sum>j<m. z ! i * A ! packedIndex i j * z ! j)"
    by (rule sum.mono_neutral_right [OF _ sub]) (use assms(2) in auto)
  finally show ?thesis by (simp only: quadForm_def)
qed

lemma quadForm_Suc:
  "quadForm (Suc j) A z =
     quadForm j A z + 2 * z ! j * (\<Sum>r<j. z ! r * A ! (tri j + r)) + z ! j * A ! (tri j + j) * z ! j"
proof -
  have col: "(\<Sum>i<j. z ! i * A ! packedIndex i j * z ! j) = z ! j * (\<Sum>r<j. z ! r * A ! (tri j + r))"
  proof -
    have "(\<Sum>i<j. z ! i * A ! packedIndex i j * z ! j) = (\<Sum>r<j. z ! j * (z ! r * A ! (tri j + r)))"
      by (rule sum.cong) (simp_all add: packedIndex_tri)
    then show ?thesis by (simp only: sum_distrib_left)
  qed
  have row: "(\<Sum>i<j. z ! j * A ! packedIndex j i * z ! i) = z ! j * (\<Sum>r<j. z ! r * A ! (tri j + r))"
  proof -
    have "(\<Sum>i<j. z ! j * A ! packedIndex j i * z ! i) = (\<Sum>r<j. z ! j * (z ! r * A ! (tri j + r)))"
      by (rule sum.cong) (simp_all add: packedIndex_sym [of j] packedIndex_tri)
    then show ?thesis by (simp only: sum_distrib_left)
  qed
  have "quadForm (Suc j) A z =
      (\<Sum>i<j. (\<Sum>c<j. z ! i * A ! packedIndex i c * z ! c) + z ! i * A ! packedIndex i j * z ! j)
      + ((\<Sum>c<j. z ! j * A ! packedIndex j c * z ! c) + z ! j * A ! packedIndex j j * z ! j)"
    by (simp only: quadForm_def sum.lessThan_Suc)
  also have "\<dots> = quadForm j A z + (\<Sum>i<j. z ! i * A ! packedIndex i j * z ! j)
      + ((\<Sum>c<j. z ! j * A ! packedIndex j c * z ! c) + z ! j * A ! packedIndex j j * z ! j)"
    by (simp only: sum.distrib quadForm_def)
  finally show ?thesis
    by (simp only: col row packedIndex_tri [OF le_refl])
qed

lemma pivot_positive:
  fixes A ap :: "real list" and j n :: nat
  defines "x \<equiv> dtpsv j ap (tri j)"
  assumes fac: "factored A ap j" and jn: "j < n" and len: "tri n \<le> length A"
    and pd: "posdef n A"
  shows "0 < x ! (tri j + j) - (\<Sum>i<j. x ! (tri j + i) * x ! (tri j + i))"
proof -
  let ?w = "\<lambda>k. x ! (tri j + k)"
  let ?U = "\<lambda>k i. if k \<le> i then ap ! (tri i + k) else 0"
  have lenap: "length ap = length A" using fac by (simp add: factored_def)
  have H2: "\<And>c. c < j \<Longrightarrow> 0 < ap ! (tri c + c)"
    using fac by (simp add: factored_def)
  have H3: "\<And>k. tri j \<le> k \<Longrightarrow> k < length A \<Longrightarrow> ap ! k = A ! k"
    using fac by (simp add: factored_def)
  have "tri (Suc j) \<le> tri n" using jn by (intro tri_mono) simp
  then have jj: "tri j + j < length A" using len by (simp add: tri_Suc)
  have "\<forall>i<j. ap ! (tri i + i) \<noteq> 0" using H2 by fastforce
  then obtain v where v: "\<forall>k<j. (\<Sum>i<j. ?U k i * v i) = - ?w k"
    using upper_solve [of j "\<lambda>k i. ap ! (tri i + k)" "\<lambda>k. - ?w k"] by blast
  define z where "z = map (\<lambda>i. if i < j then v i else if i = j then 1 else 0) [0..<n]"
  have lz: "length z = n" by (simp add: z_def)
  have zj: "z ! j = 1" using jn by (simp add: z_def)
  have zlow: "\<And>i. i < j \<Longrightarrow> z ! i = v i" using jn by (simp add: z_def)
  have zhigh: "\<And>i. Suc j \<le> i \<Longrightarrow> i < n \<Longrightarrow> z ! i = 0" by (simp add: z_def)
  have "\<exists>i<n. z ! i \<noteq> 0" using jn zj by (intro exI [of _ j]) simp
  then have pos: "0 < quadForm n A z" using pd lz by (simp add: posdef_def)
  have Uz: "\<And>k. k < j \<Longrightarrow> (\<Sum>i<j. ?U k i * z ! i) = - ?w k"
  proof -
    fix k assume k: "k < j"
    have "(\<Sum>i<j. ?U k i * z ! i) = (\<Sum>i<j. ?U k i * v i)"
      by (rule sum.cong) (simp_all add: zlow)
    then show "(\<Sum>i<j. ?U k i * z ! i) = - ?w k" using v k by simp
  qed
  have q1: "quadForm j A z = (\<Sum>k<j. ?w k * ?w k)"
  proof -
    have "quadForm j A z = (\<Sum>k<j. (\<Sum>i<j. ?U k i * z ! i)\<^sup>2)"
      by (rule factored_quadForm [OF fac])
    also have "\<dots> = (\<Sum>k<j. ?w k * ?w k)"
      by (rule sum.cong) (simp_all add: Uz power2_eq_square)
    finally show ?thesis .
  qed
  have F1: "\<And>r. r < j \<Longrightarrow> A ! (tri j + r) = (\<Sum>k<j. ?U k r * ?w k)"
  proof -
    fix r assume r: "r < j"
    have "(\<Sum>k\<le>r. ap ! (tri r + k) * dtpsv j ap (tri j) ! (tri j + k)) = ap ! (tri j + r)"
    proof (rule dtpsv_forward)
      show "j \<le> j" by simp
      show "tri j + j \<le> length ap" using jj lenap by simp
      show "r < j" by (rule r)
      show "ap ! (tri r + r) \<noteq> 0" using H2 [OF r] by simp
    qed
    moreover have "ap ! (tri j + r) = A ! (tri j + r)"
      using r jj by (intro H3) simp_all
    moreover have "(\<Sum>k<j. ?U k r * ?w k) = (\<Sum>k\<le>r. ap ! (tri r + k) * ?w k)"
    proof -
      have "(\<Sum>k<j. ?U k r * ?w k) = (\<Sum>k<j. if k \<in> {..r} then ap ! (tri r + k) * ?w k else 0)"
        by (rule sum.cong) auto
      also have "\<dots> = (\<Sum>k\<in>{..<j} \<inter> {..r}. ap ! (tri r + k) * ?w k)"
        by (simp add: sum.inter_restrict)
      also have "{..<j} \<inter> {..r} = {..r}" using r by auto
      finally show ?thesis .
    qed
    ultimately show "A ! (tri j + r) = (\<Sum>k<j. ?U k r * ?w k)"
      by (simp add: x_def)
  qed
  have q2: "(\<Sum>r<j. z ! r * A ! (tri j + r)) = - (\<Sum>k<j. ?w k * ?w k)"
  proof -
    have "(\<Sum>r<j. z ! r * A ! (tri j + r)) = (\<Sum>r<j. \<Sum>k<j. ?w k * (?U k r * z ! r))"
    proof (rule sum.cong)
      fix r assume "r \<in> {..<j}"
      then have "A ! (tri j + r) = (\<Sum>k<j. ?U k r * ?w k)" using F1 by simp
      then have "z ! r * A ! (tri j + r) = (\<Sum>k<j. z ! r * (?U k r * ?w k))"
        by (simp only: sum_distrib_left)
      also have "\<dots> = (\<Sum>k<j. ?w k * (?U k r * z ! r))"
        by (rule sum.cong) (simp_all add: mult_ac)
      finally show "z ! r * A ! (tri j + r) = (\<Sum>k<j. ?w k * (?U k r * z ! r))" .
    qed simp
    also have "\<dots> = (\<Sum>k<j. \<Sum>r<j. ?w k * (?U k r * z ! r))"
      by (rule sum.swap)
    also have "\<dots> = (\<Sum>k<j. ?w k * (\<Sum>r<j. ?U k r * z ! r))"
      by (simp only: sum_distrib_left)
    also have "\<dots> = (\<Sum>k<j. ?w k * (- ?w k))"
      by (rule sum.cong) (simp_all add: Uz)
    also have "\<dots> = - (\<Sum>k<j. ?w k * ?w k)"
      by (simp add: sum_negf)
    finally show ?thesis .
  qed
  have F2: "x ! (tri j + j) = A ! (tri j + j)"
  proof -
    have "x ! (tri j + j) = ap ! (tri j + j)" by (simp add: x_def dtpsv_other)
    also have "\<dots> = A ! (tri j + j)" using jj by (intro H3) simp_all
    finally show ?thesis .
  qed
  have "quadForm n A z = quadForm (Suc j) A z"
    using jn zhigh by (intro quadForm_support) simp_all
  also have "\<dots> = quadForm j A z + 2 * z ! j * (\<Sum>r<j. z ! r * A ! (tri j + r))
      + z ! j * A ! (tri j + j) * z ! j"
    by (rule quadForm_Suc)
  also have "\<dots> = x ! (tri j + j) - (\<Sum>k<j. ?w k * ?w k)"
    by (simp only: q1 q2 zj F2)
  finally show ?thesis using pos by simp
qed

lemma dpptrf_loop_posdef:
  "factored A ap j \<Longrightarrow> j \<le> n \<Longrightarrow> tri n \<le> length A \<Longrightarrow> posdef n A \<Longrightarrow>
   snd (dpptrf_loop [j..<n] ap) = 0"
proof (induction "n - j" arbitrary: j ap)
  case 0
  then show ?case by simp
next
  case (Suc d)
  then have jn: "j < n" by simp
  let ?x = "dtpsv j ap (tri j)"
  let ?ajj = "?x ! (tri j + j) - (\<Sum>i<j. ?x ! (tri j + i) * ?x ! (tri j + i))"
  have pos: "0 < ?ajj"
    using Suc.prems(1) jn Suc.prems(3,4) by (rule pivot_positive)
  have unf: "dpptrf_loop [j..<n] ap = dpptrf_loop [Suc j..<n] (?x[tri j + j := sqrt ?ajj])"
    using jn pos by (simp only: upt_conv_Cons dpptrf_loop_Cons Let_def) simp
  have "tri (Suc j) \<le> tri n" using jn by (intro tri_mono) simp
  then have "tri (Suc j) \<le> length A" using Suc.prems(3) by simp
  then have "factored A (?x[tri j + j := sqrt ?ajj]) (Suc j)"
    using Suc.prems(1) pos by (intro factored_step)
  moreover have "d = n - Suc j" using Suc.hyps(2) by simp
  ultimately have "snd (dpptrf_loop [Suc j..<n] (?x[tri j + j := sqrt ?ajj])) = 0"
    using Suc.hyps(1) [of "Suc j" "?x[tri j + j := sqrt ?ajj]"] jn Suc.prems(3,4) by simp
  then show ?case by (simp only: unf)
qed

lemma dpptrf_posdef_success:
  "tri n \<le> length A \<Longrightarrow> posdef n A \<Longrightarrow> snd (dpptrf n A) = 0"
  unfolding dpptrf_def
  using dpptrf_loop_posdef [where j = 0 and ap = A and A = A and n = n] factored_0 [of A]
  by simp

lemma dpptrf_status_iff:
  "tri n \<le> length A \<Longrightarrow> snd (dpptrf n A) = 0 \<longleftrightarrow> posdef n A"
  using dpptrf_posdef_success dpptrf_success_posdef by blast

lemma factored_diagonal_nonneg:
  assumes "factored A u n" "i < n"
  shows "0 \<le> A ! (tri i + i)"
proof -
  have "(\<Sum>k\<le>i. u ! (tri i + k) * u ! (tri i + k)) = A ! (tri i + i)"
    using assms by (simp add: factored_def)
  moreover have "0 \<le> (\<Sum>k\<le>i. u ! (tri i + k) * u ! (tri i + k))"
    by (rule sum_nonneg) simp
  ultimately show ?thesis by simp
qed

section \<open>Rounding to binary64\<close>

lemma binary64_exact:
  assumes "x = of_int m * 2 powr (of_int k)" "\<bar>m\<bar> < 2 ^ 53" "- 1074 \<le> k"
  shows "binary64 x = x"
proof (cases "x = 0")
  case True
  then show ?thesis by (simp add: binary64_def)
next
  case False
  define q where "q = max (\<lfloor>log 2 \<bar>x\<bar>\<rfloor> - 52) (- 1074)"
  have xpos: "0 < \<bar>x\<bar>" using False by simp
  have "\<bar>x\<bar> = \<bar>of_int m\<bar> * 2 powr (of_int k)"
    by (simp add: assms(1) abs_mult)
  also have "\<dots> < 2 ^ 53 * 2 powr (of_int k)"
  proof -
    have "\<bar>real_of_int m\<bar> < 2 ^ 53"
      using assms(2) by (metis of_int_abs of_int_less_numeral_power_cancel_iff)
    then show ?thesis by simp
  qed
  also have "\<dots> = 2 powr (of_int (k + 53))"
    by (simp add: powr_add powr_realpow [symmetric] add.commute)
  finally have "\<bar>x\<bar> < 2 powr (of_int (k + 53))" .
  then have "log 2 \<bar>x\<bar> < of_int (k + 53)"
    using xpos by (simp add: log_less_iff)
  then have "\<lfloor>log 2 \<bar>x\<bar>\<rfloor> < k + 53" by (simp add: floor_less_iff)
  then have qk: "q \<le> k" using assms(3) by (simp add: q_def)
  define d where "d = nat (k - q)"
  have kq: "k = q + int d" using qk by (simp add: d_def)
  have "(2::real) powr (of_int k) = 2 powr (of_int q) * 2 ^ d"
    by (simp add: kq powr_add powr_realpow)
  then have r: "x / 2 powr (of_int q) = of_int (m * 2 ^ d)"
    by (simp add: assms(1))
  have "binary64 x = of_int (m * 2 ^ d) * 2 powr (of_int q)"
    using False unfolding binary64_def Let_def q_def [symmetric] r by simp
  also have "\<dots> = x"
    using r by (simp add: field_simps)
  finally show ?thesis .
qed

lemma binary64_underflow:
  assumes "0 < x" "x < 2 powr (- 1075)"
  shows "binary64 x = 0"
proof -
  have "log 2 \<bar>x\<bar> < - 1075" using assms by (simp add: log_less_iff)
  then have "\<lfloor>log 2 \<bar>x\<bar>\<rfloor> < - 1075"
    using floor_less_iff [of "log 2 \<bar>x\<bar>" "- 1075"] by simp
  then have q: "max (\<lfloor>log 2 \<bar>x\<bar>\<rfloor> - 52) (- 1074) = - 1074"
    by linarith
  define r where "r = x / 2 powr (- 1074)"
  have "r < 2 powr (- 1075) / 2 powr (- 1074)"
    unfolding r_def using assms(2) by (rule divide_strict_right_mono) simp
  also have "\<dots> = 1 / 2"
    by (simp add: powr_diff [symmetric])
  finally have lt: "r < 1 / 2" .
  have ge: "0 \<le> r" unfolding r_def using assms(1) by simp
  have f: "\<lfloor>r\<rfloor> = 0"
    by (rule floor_unique) (use lt ge in simp_all)
  have "binary64 x =
      (if r - of_int \<lfloor>r\<rfloor> < 1 / 2 \<or> (r - of_int \<lfloor>r\<rfloor> = 1 / 2 \<and> even \<lfloor>r\<rfloor>)
       then of_int \<lfloor>r\<rfloor> else of_int \<lfloor>r\<rfloor> + 1) * 2 powr (- 1074)"
    using assms(1) unfolding binary64_def Let_def q r_def by simp
  then show ?thesis using lt by (simp add: f)
qed

lemma binary64_mul_2: "binary64_mul 2 2 = 4"
  using binary64_exact [of 4 4 0] by (simp add: binary64_mul_def)

lemma binary64_mul_3: "binary64_mul 3 3 = 9"
  using binary64_exact [of 9 9 0] by (simp add: binary64_mul_def)

lemma binary64_mul_tiny: "binary64_mul (2 powr (- 600)) (2 powr (- 600)) = 0"
proof -
  have "(2::real) powr (- 600) * 2 powr (- 600) = 2 powr (- 1200)"
    by (simp add: powr_add [symmetric])
  moreover have "(2::real) powr (- 1200) < 2 powr (- 1075)" by simp
  moreover have "0 < (2::real) powr (- 1200)" by simp
  ultimately show ?thesis by (simp only: binary64_mul_def binary64_underflow)
qed

section \<open>Worked inputs of the queries\<close>


lemma dpptrf_1_0: "dpptrf 1 [0] = ([0], 1)"
  by (simp add: dpptrf_def ddot_def)


lemma choleskyDecomposition_0: "choleskyDecomposition dpptrf [0] = Inr None"
proof -
  have "length [0 :: real] = tri 1" by (simp add: tri_def)
  moreover have "1 + 8 * int (length [0 :: real]) \<le> INT_MAX" by (simp add: INT_MAX_def)
  ultimately have "choleskyDecomposition dpptrf [0] =
      (if snd (dpptrf 1 [0]) = 0 then Inr (Some (fst (dpptrf 1 [0]))) else Inr None)"
    by (intro choleskyDecomposition_tri) simp_all
  then show ?thesis by (simp only: dpptrf_1_0) simp
qed


lemma squaredErrors_tiny: "squaredErrors binary64_mul [2 powr (- 600)] = [0]"
  by (simp add: squaredErrors_def tri_def binary64_mul_tiny)

lemma squaredErrors_2_3: "squaredErrors binary64_mul [2, 3] = [4, 0, 9]"
  by (simp add: squaredErrors_def tri_def binary64_mul_2 binary64_mul_3 upt_rec)

lemma squaredErrors_2_3_exact: "squaredErrors (*) [2, 3] = [4, 0, 9]"
  by (simp add: squaredErrors_def tri_def upt_rec)


lemma underflow_state:
  "updateCovariance binary64_mul dpptrf [2 powr (- 600)] True (FunctionMinimum_ctor 0 [0]) =
     (NoReturnValue, \<lparr>m_minValue = 0, m_where = [0], m_covar = Some [0], m_cholesky = None\<rparr>)"
  by (simp add: updateCovariance_True FunctionMinimum_ctor_def
      squaredErrors_tiny choleskyDecomposition_0 INT_MAX_def)





section \<open>The errors-only branch\<close>

lemma squaredErrors_diagonal:
  "diagonalMatrix (length e) (\<lambda>i. dmul (e ! i) (e ! i)) (squaredErrors dmul e)"
  unfolding squaredErrors_def by (rule diagonal_builder_matrix)

lemma squaredErrors_length: "length (squaredErrors dmul e) = tri (length e)"
  using squaredErrors_diagonal [of e dmul] by (simp add: diagonalMatrix_def)

lemma updateCovariance_errorsOnly_any:
  assumes len: "length e = length (m_where fm)" and ne: "e \<noteq> []"
    and pos: "\<forall>x\<in>set e. 0 < x"
    and rng: "1 + 8 * int (length e * (length e + 1) div 2) \<le> INT_MAX"
  shows "updateCovariance dmul prim e True fm =
           (NoReturnValue,
            fm\<lparr>m_covar := Some (squaredErrors dmul e),
               m_cholesky :=
                 (if snd (prim (length e) (squaredErrors dmul e)) = 0
                  then Some (fst (prim (length e) (squaredErrors dmul e))) else None)\<rparr>)"
proof -
  have r: "1 + 8 * int (tri (length e)) \<le> INT_MAX" using rng by (simp only: tri_def)
  have g: "\<not> int (length (m_where fm)) * (int (length (m_where fm)) + 1) > INT_MAX"
    using order_in_range [OF r] len by simp
  have nex: "\<not> list_ex (\<lambda>x. x \<le> 0) e"
    using pos by (auto simp: list_ex_iff)
  have "choleskyDecomposition prim (squaredErrors dmul e) =
      (if snd (prim (length e) (squaredErrors dmul e)) = 0
       then Inr (Some (fst (prim (length e) (squaredErrors dmul e)))) else Inr None)"
    by (rule choleskyDecomposition_tri) (use ne r in \<open>simp_all add: squaredErrors_length\<close>)
  then show ?thesis
    using g len nex by (simp add: updateCovariance_True)
qed

lemma updateCovariance_errorsOnly:
  assumes len: "length e = length (m_where fm)" and ne: "e \<noteq> []"
    and pos: "\<forall>x\<in>set e. 0 < x"
    and rng: "1 + 8 * int (length e * (length e + 1) div 2) \<le> INT_MAX"
  shows "\<exists>c u. updateCovariance (*) dpptrf e True fm =
            (NoReturnValue, fm\<lparr>m_covar := Some c, m_cholesky := Some u\<rparr>)
          \<and> diagonalMatrix (length e) (\<lambda>i. e ! i * e ! i) c
          \<and> diagonalMatrix (length e) (\<lambda>i. e ! i) u"
proof -
  let ?n = "length e"
  let ?c = "squaredErrors (*) e"
  have c: "diagonalMatrix ?n (\<lambda>i. e ! i * e ! i) ?c"
    by (rule squaredErrors_diagonal)
  have p: "\<And>i. i < ?n \<Longrightarrow> 0 < e ! i" using pos by simp
  then have "\<forall>i<?n. 0 < e ! i * e ! i" by simp
  then obtain u where u: "dpptrf ?n ?c = (u, 0)"
      "diagonalMatrix ?n (\<lambda>i. sqrt (e ! i * e ! i)) u"
    using diagonal_dpptrf [OF c] by blast
  have u': "diagonalMatrix ?n (\<lambda>i. e ! i) u"
    using u(2) by (rule diagonalMatrix_cong) (use p in \<open>simp add: less_imp_le\<close>)
  have "updateCovariance (*) dpptrf e True fm =
      (NoReturnValue, fm\<lparr>m_covar := Some ?c, m_cholesky := Some u\<rparr>)"
    using updateCovariance_errorsOnly_any [OF assms, of "(*)" dpptrf] u(1) by simp
  with c u' show ?thesis by blast
qed

lemma invariant_ctor: "invariant (FunctionMinimum_ctor minValue wh)"
  by (simp add: invariant_def FunctionMinimum_ctor_def)

section \<open>Worked inputs of updateCovariance\<close>

lemma dpptrf_example_diag: "dpptrf 2 [4, 0, 9] = ([2, 0, 3], 0)"
  by (simp add: dpptrf_def upt_rec dtpsv_def dtpsv_row_def ddot_def Let_def sqrt_9)

lemma choleskyDecomposition_example_diag:
  "choleskyDecomposition dpptrf [4, 0, 9] = Inr (Some [2, 0, 3])"
proof -
  have "length [4, 0, 9 :: real] = tri 2" by (simp add: tri_def)
  then have "choleskyDecomposition dpptrf [4, 0, 9] =
      (if snd (dpptrf 2 [4, 0, 9]) = 0 then Inr (Some (fst (dpptrf 2 [4, 0, 9]))) else Inr None)"
    by (rule choleskyDecomposition_tri) (simp_all add: INT_MAX_def)
  then show ?thesis by (simp only: dpptrf_example_diag) simp
qed

lemma choleskyDecomposition_example_ok:
  "choleskyDecomposition dpptrf [4, 2, 10] = Inr (Some [2, 1, 3])"
proof -
  have "length [4, 2, 10 :: real] = tri 2" by (simp add: tri_def)
  then have "choleskyDecomposition dpptrf [4, 2, 10] =
      (if snd (dpptrf 2 [4, 2, 10]) = 0 then Inr (Some (fst (dpptrf 2 [4, 2, 10]))) else Inr None)"
    by (rule choleskyDecomposition_tri) (simp_all add: INT_MAX_def)
  then show ?thesis by (simp only: dpptrf_example_ok) simp
qed

lemma errors_example:
  "updateCovariance binary64_mul dpptrf [2, 3] True (FunctionMinimum_ctor 0 [0, 0]) =
     (NoReturnValue,
      \<lparr>m_minValue = 0, m_where = [0, 0], m_covar = Some [4, 0, 9], m_cholesky = Some [2, 0, 3]\<rparr>)"
  by (simp add: updateCovariance_True FunctionMinimum_ctor_def squaredErrors_2_3
      choleskyDecomposition_example_diag INT_MAX_def)

lemma errors_example_exact:
  "updateCovariance (*) dpptrf [2, 3] True (FunctionMinimum_ctor 0 [0, 0]) =
     (NoReturnValue,
      \<lparr>m_minValue = 0, m_where = [0, 0], m_covar = Some [4, 0, 9], m_cholesky = Some [2, 0, 3]\<rparr>)"
  by (simp add: updateCovariance_True FunctionMinimum_ctor_def squaredErrors_2_3_exact
      choleskyDecomposition_example_diag INT_MAX_def)

lemma full_example:
  "updateCovariance binary64_mul dpptrf [4, 2, 10] False (FunctionMinimum_ctor 0 [0, 0]) =
     (NoReturnValue,
      \<lparr>m_minValue = 0, m_where = [0, 0], m_covar = Some [4, 2, 10],
       m_cholesky = Some [2, 1, 3]\<rparr>)"
  by (simp add: updateCovariance_False FunctionMinimum_ctor_def tri_def
      choleskyDecomposition_example_ok INT_MAX_def)

lemma posdef_example: "posdef 2 [4, 2, 10]"
proof (rule dpptrf_success_posdef)
  show "tri 2 \<le> length [4, 2, 10 :: real]" by (simp add: tri_def)
  show "snd (dpptrf 2 [4, 2, 10]) = 0" by (simp only: dpptrf_example_ok) simp
qed

section \<open>Sizes beyond the range of int\<close>

lemma packedIndex_bound: "i < n \<Longrightarrow> j < n \<Longrightarrow> packedIndex i j < tri n"
proof -
  assume a: "i < n" "j < n"
  have b: "\<And>r c. r \<le> c \<Longrightarrow> c < n \<Longrightarrow> packedIndex r c < tri n"
  proof -
    fix r c :: nat assume "r \<le> c" "c < n"
    then have "tri c + r \<le> tri c + c" "tri c + c < tri n"
      using tri_less [of c n] by simp_all
    then show "packedIndex r c < tri n"
      using \<open>r \<le> c\<close> by (simp add: packedIndex_tri)
  qed
  show ?thesis
  proof (cases "i \<le> j")
    case True
    then show ?thesis using a b by simp
  next
    case False
    then have "j \<le> i" by simp
    then have "packedIndex j i < tri n" using a b by simp
    then show ?thesis by (simp only: packedIndex_sym [of i j])
  qed
qed

lemma posdef_zero:
  assumes "0 < n" and "tri n \<le> N"
  shows "\<not> posdef n (replicate N 0)"
proof
  assume p: "posdef n (replicate N 0)"
  have z: "\<And>i j. i < n \<Longrightarrow> j < n \<Longrightarrow> replicate N (0::real) ! packedIndex i j = 0"
  proof -
    fix i j assume "i < n" "j < n"
    then have "packedIndex i j < N" using packedIndex_bound [of i n j] assms(2) by simp
    then show "replicate N (0::real) ! packedIndex i j = 0" by (rule nth_replicate)
  qed
  have "quadForm n (replicate N 0) (replicate n 1) = 0"
    unfolding quadForm_def by (intro sum.neutral ballI) (simp add: z)
  moreover have "length (replicate n (1::real)) = n \<and> (\<exists>i<n. replicate n (1::real) ! i \<noteq> 0)"
    using assms(1) by auto
  then have "0 < quadForm n (replicate N 0) (replicate n 1)"
    using p unfolding posdef_def by blast
  ultimately show False by simp
qed

lemma tri_23170: "tri 23170 = 268436035"
  by (simp add: tri_def)

section \<open>Results\<close>

text \<open>C7: a floating parameter that is fixed and then released has its value and its
  error back, and floats again.\<close>

theorem fix_release_restores:
  assumes "isFloating p"
  shows "getValue (FitParameter_release (FitParameter_fix p)) = getValue p
       \<and> getError (FitParameter_release (FitParameter_fix p)) = getError p
       \<and> isFloating (FitParameter_release (FitParameter_fix p))
       \<and> FitParameter_release (FitParameter_fix p) = p"
  using assms
  by (simp add: isFloating_def getValue_def getError_def FitParameter_fix_def
      FitParameter_release_def)

theorem fix_release_restores_witness:
  "isFloating \<lparr>m_name = ''m'', m_value = 3/2, m_error = 1/5\<rparr>
   \<and> getError (FitParameter_fix \<lparr>m_name = ''m'', m_value = 3/2, m_error = 1/5\<rparr>) = - (1/5)
   \<and> getError (FitParameter_release (FitParameter_fix
        \<lparr>m_name = ''m'', m_value = 3/2, m_error = 1/5\<rparr>)) = 1/5
   \<and> getValue (FitParameter_release (FitParameter_fix
        \<lparr>m_name = ''m'', m_value = 3/2, m_error = 1/5\<rparr>)) = 3/2"
proof -
  have h: "isFloating \<lparr>m_name = ''m'', m_value = 3/2, m_error = 1/5\<rparr>"
    by (simp add: isFloating_def)
  show ?thesis
    using h fix_release_restores [OF h]
    by (simp add: getValue_def getError_def FitParameter_fix_def)
qed




text \<open>
  C9: \<open>updateParameters\<close> replaces the point and the minimum value; the covariance
  and the factor, present or not, stay as they were.
\<close>

theorem updateParameters_frame:
  "m_where (updateParameters params fval fm) = params
   \<and> m_minValue (updateParameters params fval fm) = fval
   \<and> m_covar (updateParameters params fval fm) = m_covar fm
   \<and> m_cholesky (updateParameters params fval fm) = m_cholesky fm
   \<and> haveCovariance (updateParameters params fval fm) = haveCovariance fm
   \<and> updateParameters params fval fm =
       \<lparr>m_minValue = fval, m_where = params, m_covar = m_covar fm,
        m_cholesky = m_cholesky fm\<rparr>"
  by (simp add: updateParameters_def haveCovariance_def)

text \<open>
  C2, as amended: for a packed matrix \<open>C\<close> of the right length that is not empty and
  keeps \<open>1 + 8 * length C\<close> within the range of \<open>int\<close>, whenever the primitive reports
  a status other than zero \<open>updateCovariance\<close> returns false and the function minimum
  is what it was, with its point, its minimum value, its covariance and its factor.
  The reference routine in exact arithmetic reports such a status on every \<open>C\<close> that
  is not positive definite.
\<close>

theorem updateCovariance_rejects:
  assumes "length C = length (m_where fm) * (length (m_where fm) + 1) div 2"
    and "C \<noteq> []" and "1 + 8 * int (length C) \<le> INT_MAX"
  shows "(snd (prim (length (m_where fm)) C) \<noteq> 0 \<longrightarrow>
            fst (updateCovariance dmul prim C False fm) = Returned False
          \<and> snd (updateCovariance dmul prim C False fm) = fm
          \<and> haveCovariance (snd (updateCovariance dmul prim C False fm)) = haveCovariance fm)
       \<and> (\<not> posdef (length (m_where fm)) C \<longrightarrow>
            snd (dpptrf (length (m_where fm)) C) \<noteq> 0
          \<and> fst (updateCovariance dmul dpptrf C False fm) = Returned False
          \<and> snd (updateCovariance dmul dpptrf C False fm) = fm
          \<and> haveCovariance (snd (updateCovariance dmul dpptrf C False fm)) = haveCovariance fm)"
proof -
  let ?n = "length (m_where fm)"
  have len: "length C = tri ?n" using assms(1) by (simp add: tri_def)
  have pos: "0 < ?n"
  proof (rule ccontr)
    assume "\<not> 0 < ?n"
    then have "length C = 0" using len by simp
    with assms(2) show False by simp
  qed
  have g: "\<not> int ?n * (int ?n + 1) > INT_MAX"
    using assms(3) len by (intro order_in_range) simp
  have rej: "\<And>p. snd (p ?n C) \<noteq> 0 \<Longrightarrow>
      updateCovariance dmul p C False fm = (Returned False, fm)"
  proof -
    fix p :: Primitive assume "snd (p ?n C) \<noteq> 0"
    then have "choleskyDecomposition p C = Inr None"
      using choleskyDecomposition_tri [OF len pos assms(3), of p] by simp
    then show "updateCovariance dmul p C False fm = (Returned False, fm)"
      using len g by (simp add: updateCovariance_False)
  qed
  have np: "\<not> posdef ?n C \<Longrightarrow> snd (dpptrf ?n C) \<noteq> 0"
    using dpptrf_success_posdef [of ?n C] len by auto
  show ?thesis
    using rej [of prim] rej [of dpptrf] np by simp
qed

theorem updateCovariance_rejects_witness:
  "fst (updateCovariance binary64_mul dpptrf [1, 2, 1] False (FunctionMinimum_ctor 0 [0, 0]))
     = Returned False
   \<and> snd (updateCovariance binary64_mul dpptrf [1, 2, 1] False (FunctionMinimum_ctor 0 [0, 0]))
       = FunctionMinimum_ctor 0 [0, 0]
   \<and> \<not> haveCovariance
         (snd (updateCovariance binary64_mul dpptrf [1, 2, 1] False (FunctionMinimum_ctor 0 [0, 0])))
   \<and> snd (dpptrf 2 [1, 2, 1]) \<noteq> 0
   \<and> \<not> posdef 2 [1, 2, 1]"
proof -
  let ?fm = "FunctionMinimum_ctor 0 [0, 0]"
  have a: "length [1, 2, 1 :: real] = length (m_where ?fm) * (length (m_where ?fm) + 1) div 2"
    by (simp add: FunctionMinimum_ctor_def)
  have b: "[1, 2, 1 :: real] \<noteq> []" by simp
  have c: "1 + 8 * int (length [1, 2, 1 :: real]) \<le> INT_MAX" by (simp add: INT_MAX_def)
  have l: "length (m_where ?fm) = 2" by (simp add: FunctionMinimum_ctor_def)
  have s: "snd (dpptrf (length (m_where ?fm)) [1, 2, 1]) \<noteq> 0"
    unfolding l by (simp only: dpptrf_example_fail) simp
  have h: "\<not> haveCovariance ?fm"
    by (simp add: haveCovariance_def FunctionMinimum_ctor_def)
  have "fst (updateCovariance binary64_mul dpptrf [1, 2, 1] False ?fm) = Returned False
      \<and> snd (updateCovariance binary64_mul dpptrf [1, 2, 1] False ?fm) = ?fm"
    using updateCovariance_rejects [OF a b c, of dpptrf binary64_mul] s by blast
  then show ?thesis
    using h s not_posdef_example by (simp add: l)
qed

text \<open>
  C2 as first stated, for every size, fails at the order \<open>23170\<close>: the zero matrix of
  that order is not positive definite and has the right length, but the sum
  \<open>1 + 8 * 268436035\<close> in \<open>choleskyDecomposition\<close> is beyond the range of \<open>int\<close>, and
  \<open>updateCovariance\<close> does not return false.
\<close>

theorem updateCovariance_int_overflow:
  "length (m_where (FunctionMinimum_ctor 0 (replicate 23170 0))) = 23170
   \<and> length (replicate 268436035 (0 :: real)) = 23170 * (23170 + 1) div 2
   \<and> \<not> posdef 23170 (replicate 268436035 0)
   \<and> fst (updateCovariance binary64_mul dpptrf (replicate 268436035 0) False
        (FunctionMinimum_ctor 0 (replicate 23170 0))) = Thrown UndefinedBehaviour"
proof (intro conjI)
  let ?fm = "FunctionMinimum_ctor 0 (replicate 23170 0)"
  let ?C = "replicate 268436035 (0 :: real)"
  show l: "length (m_where ?fm) = 23170"
    by (simp only: FunctionMinimum_ctor_def FunctionMinimum.simps length_replicate)
  show "length ?C = 23170 * (23170 + 1) div 2"
    by (simp only: length_replicate) simp
  show "\<not> posdef 23170 ?C"
    by (rule posdef_zero) (simp_all add: tri_23170)
  have len: "length ?C = tri (length (m_where ?fm))"
    by (simp only: l tri_23170 length_replicate)
  have g: "\<not> int (length (m_where ?fm)) * (int (length (m_where ?fm)) + 1) > INT_MAX"
    by (simp only: l) (simp add: INT_MAX_def)
  have "INT_MAX < 1 + 8 * int (length ?C)"
    by (simp only: length_replicate) (simp add: INT_MAX_def)
  then have "choleskyDecomposition dpptrf ?C = Inl UndefinedBehaviour"
    by (rule choleskyDecomposition_overflow)
  then have "updateCovariance binary64_mul dpptrf ?C False ?fm = (Thrown UndefinedBehaviour, ?fm)"
    using len g by (simp only: updateCovariance_False if_False if_True simp_thms sum.case)
  then show "fst (updateCovariance binary64_mul dpptrf ?C False ?fm) = Thrown UndefinedBehaviour"
    by (simp only: fst_conv)
qed










text \<open>
  C5: the errors-only branch of \<open>updateCovariance\<close> assigns the covariance before it
  calls \<open>choleskyDecomposition\<close> and does not test what that gives. When the primitive
  reports a status other than zero on the covariance of the squares, as it does when
  the square of an error underflows to zero, the call leaves a covariance with a
  null factor: the invariant is broken, and \<open>setRandomParameters\<close> then dereferences
  the null factor. The full-matrix branch tests the factor first: it leaves the
  function minimum as it was, or sets both the covariance and the factor.
\<close>

theorem updateCovariance_unchecked_factor:
  assumes "length e = length (m_where fm)" and "e \<noteq> []" and "\<forall>x\<in>set e. 0 < x"
    and "1 + 8 * int (length e * (length e + 1) div 2) \<le> INT_MAX"
    and "snd (prim (length e) (squaredErrors dmul e)) \<noteq> 0"
  shows "updateCovariance dmul prim e True fm =
           (NoReturnValue, fm\<lparr>m_covar := Some (squaredErrors dmul e), m_cholesky := None\<rparr>)
       \<and> \<not> invariant (snd (updateCovariance dmul prim e True fm))
       \<and> (length e \<le> length dst \<longrightarrow>
            setRandomParameters (snd (updateCovariance dmul prim e True fm)) rng dst
              = Inl UndefinedBehaviour)
       \<and> (snd (updateCovariance dmul prim covar False fm) = fm
          \<or> (\<exists>u. snd (updateCovariance dmul prim covar False fm)
                   = fm\<lparr>m_cholesky := Some u, m_covar := Some covar\<rparr>))"
proof -
  let ?fm1 = "fm\<lparr>m_covar := Some (squaredErrors dmul e), m_cholesky := None\<rparr>"
  have upd: "updateCovariance dmul prim e True fm = (NoReturnValue, ?fm1)"
    using updateCovariance_errorsOnly_any [OF assms(1-4), of dmul prim] assms(5) by simp
  have inv: "\<not> invariant ?fm1" by (simp add: invariant_def)
  have "haveCovariance ?fm1" "m_cholesky ?fm1 = None" by (simp_all add: haveCovariance_def)
  then have smp: "setRandomParameters ?fm1 rng dst = Inl UndefinedBehaviour"
    by (rule setRandomParameters_null)
  have sib: "snd (updateCovariance dmul prim covar False fm) = fm
      \<or> (\<exists>u. snd (updateCovariance dmul prim covar False fm)
               = fm\<lparr>m_cholesky := Some u, m_covar := Some covar\<rparr>)"
    by (simp add: updateCovariance_False split: sum.splits option.splits) blast
  show ?thesis using inv smp sib by (simp only: upd snd_conv simp_thms)
qed

theorem updateCovariance_unchecked_factor_witness:
  "updateCovariance binary64_mul dpptrf [2 powr (- 600)] True (FunctionMinimum_ctor 0 [0]) =
     (NoReturnValue, \<lparr>m_minValue = 0, m_where = [0], m_covar = Some [0], m_cholesky = None\<rparr>)
   \<and> invariant (FunctionMinimum_ctor 0 [0])
   \<and> \<not> invariant \<lparr>m_minValue = 0, m_where = [0], m_covar = Some [0], m_cholesky = None\<rparr>
   \<and> setRandomParameters
        \<lparr>m_minValue = 0, m_where = [0], m_covar = Some [0], m_cholesky = None\<rparr> (sconst 0) [0]
       = Inl UndefinedBehaviour
   \<and> squaredErrors binary64_mul [2 powr (- 600)] = [0]
   \<and> dpptrf 1 [0] = ([0], 1)"
proof -
  let ?fm0 = "FunctionMinimum_ctor 0 [0]"
  let ?e = "[2 powr (- 600) :: real]"
  let ?fm1 = "\<lparr>m_minValue = 0, m_where = [0], m_covar = Some [0], m_cholesky = None\<rparr>"
  have a: "length ?e = length (m_where ?fm0)" by (simp add: FunctionMinimum_ctor_def)
  have b: "?e \<noteq> []" by simp
  have c: "\<forall>x\<in>set ?e. 0 < x" by simp
  have d: "1 + 8 * int (length ?e * (length ?e + 1) div 2) \<le> INT_MAX"
    by (simp add: INT_MAX_def)
  have f: "snd (dpptrf (length ?e) (squaredErrors binary64_mul ?e)) \<noteq> 0"
  proof -
    have "length ?e = 1" by simp
    then show ?thesis by (simp only: squaredErrors_tiny dpptrf_1_0 snd_conv)
  qed
  have l: "length ?e \<le> length [0 :: real]" by simp
  have s: "snd (updateCovariance binary64_mul dpptrf ?e True ?fm0) = ?fm1"
    by (simp only: underflow_state snd_conv)
  have "\<not> invariant (snd (updateCovariance binary64_mul dpptrf ?e True ?fm0))"
    using updateCovariance_unchecked_factor
      [where prim = dpptrf and dmul = binary64_mul and e = ?e and fm = ?fm0, OF a b c d f]
    by blast
  then have 1: "\<not> invariant ?fm1" unfolding s .
  have "setRandomParameters (snd (updateCovariance binary64_mul dpptrf ?e True ?fm0))
      (sconst 0) [0] = Inl UndefinedBehaviour"
    using updateCovariance_unchecked_factor
      [where prim = dpptrf and dmul = binary64_mul and e = ?e and fm = ?fm0
        and dst = "[0]" and rng = "sconst 0", OF a b c d f] l
    by blast
  then have 2: "setRandomParameters ?fm1 (sconst 0) [0] = Inl UndefinedBehaviour"
    unfolding s .
  show ?thesis
    using 1 2 underflow_state squaredErrors_tiny dpptrf_1_0 invariant_ctor [of 0 "[0]"]
    by (simp only: simp_thms)
qed

text \<open>
  C3: for a vector \<open>e\<close> of strictly positive errors of the length of the minimum, not
  empty and within the range of \<open>int\<close>, \<open>updateCovariance\<close> with \<open>errorsOnly\<close> stores the
  diagonal covariance of the squares as the multiplication of doubles gives them;
  with exact squares and the reference routine in exact arithmetic the factor is
  stored with it and \<open>getErrors\<close> then gives \<open>e\<close> back. But whatever the multiplication
  and the primitive are, the call ends at the closing brace without a \<open>return\<close>
  statement, so it hands its caller no value, and the constructor that tests the
  value may throw on these errors.
\<close>

theorem updateCovariance_errors_only:
  assumes "length e = length (m_where fm)" and "\<forall>x\<in>set e. 0 < x"
    and "e \<noteq> []" and "1 + 8 * int (length e * (length e + 1) div 2) \<le> INT_MAX"
  shows "fst (updateCovariance dmul prim e True fm) = NoReturnValue
       \<and> (\<exists>c. m_covar (snd (updateCovariance dmul prim e True fm)) = Some c
            \<and> length c = length e * (length e + 1) div 2
            \<and> (\<forall>i<length e. c ! (i * (i + 3) div 2) = dmul (e ! i) (e ! i))
            \<and> (\<forall>k<length c. (\<forall>i<length e. k \<noteq> i * (i + 3) div 2) \<longrightarrow> c ! k = 0))
       \<and> (\<exists>c u. updateCovariance (*) dpptrf e True fm =
              (NoReturnValue, fm\<lparr>m_covar := Some c, m_cholesky := Some u\<rparr>)
            \<and> length c = length e * (length e + 1) div 2
            \<and> (\<forall>i<length e. c ! (i * (i + 3) div 2) = (e ! i)\<^sup>2)
            \<and> (\<forall>k<length c. (\<forall>i<length e. k \<noteq> i * (i + 3) div 2) \<longrightarrow> c ! k = 0)
            \<and> getErrors (fm\<lparr>m_covar := Some c, m_cholesky := Some u\<rparr>) = Inr e)"
proof (intro conjI)
  note any = updateCovariance_errorsOnly_any [OF assms(1,3,2,4), of dmul prim]
  show "fst (updateCovariance dmul prim e True fm) = NoReturnValue"
    by (simp only: any fst_conv)
  let ?c = "squaredErrors dmul e"
  have d: "diagonalMatrix (length e) (\<lambda>i. dmul (e ! i) (e ! i)) ?c"
    by (rule squaredErrors_diagonal)
  have "m_covar (snd (updateCovariance dmul prim e True fm)) = Some ?c"
    by (simp only: any snd_conv) simp
  moreover have "length ?c = length e * (length e + 1) div 2"
    using d by (simp add: diagonalMatrix_def tri_def)
  moreover have "\<forall>i<length e. ?c ! (i * (i + 3) div 2) = dmul (e ! i) (e ! i)"
    using d by (simp add: diagonalMatrix_def diag_index)
  moreover have "\<forall>k<length ?c. (\<forall>i<length e. k \<noteq> i * (i + 3) div 2) \<longrightarrow> ?c ! k = 0"
    using diagonalMatrix_off_diagonal [OF d] by blast
  ultimately show "\<exists>c. m_covar (snd (updateCovariance dmul prim e True fm)) = Some c
            \<and> length c = length e * (length e + 1) div 2
            \<and> (\<forall>i<length e. c ! (i * (i + 3) div 2) = dmul (e ! i) (e ! i))
            \<and> (\<forall>k<length c. (\<forall>i<length e. k \<noteq> i * (i + 3) div 2) \<longrightarrow> c ! k = 0)"
    by blast
next
  obtain c u where cu:
      "updateCovariance (*) dpptrf e True fm =
         (NoReturnValue, fm\<lparr>m_covar := Some c, m_cholesky := Some u\<rparr>)"
      "diagonalMatrix (length e) (\<lambda>i. e ! i * e ! i) c"
    using updateCovariance_errorsOnly [OF assms(1,3,2,4)] by blast
  have "length c = length e * (length e + 1) div 2"
    using cu(2) by (simp add: diagonalMatrix_def tri_def)
  moreover have "\<forall>i<length e. c ! (i * (i + 3) div 2) = (e ! i)\<^sup>2"
    using cu(2) by (simp add: diagonalMatrix_def diag_index power2_eq_square)
  moreover have "\<forall>k<length c. (\<forall>i<length e. k \<noteq> i * (i + 3) div 2) \<longrightarrow> c ! k = 0"
    using diagonalMatrix_off_diagonal [OF cu(2)] by blast
  moreover have "getErrors (fm\<lparr>m_covar := Some c, m_cholesky := Some u\<rparr>) = Inr e"
    using cu(2) assms(2) by (rule diagonalMatrix_errors) (use assms(1) in simp_all)
  ultimately show "\<exists>c u. updateCovariance (*) dpptrf e True fm =
              (NoReturnValue, fm\<lparr>m_covar := Some c, m_cholesky := Some u\<rparr>)
            \<and> length c = length e * (length e + 1) div 2
            \<and> (\<forall>i<length e. c ! (i * (i + 3) div 2) = (e ! i)\<^sup>2)
            \<and> (\<forall>k<length c. (\<forall>i<length e. k \<noteq> i * (i + 3) div 2) \<longrightarrow> c ! k = 0)
            \<and> getErrors (fm\<lparr>m_covar := Some c, m_cholesky := Some u\<rparr>) = Inr e"
    using cu(1) by blast
qed

theorem updateCovariance_errors_only_witness:
  "updateCovariance binary64_mul dpptrf [2, 3] True (FunctionMinimum_ctor 0 [0, 0]) =
     (NoReturnValue,
      \<lparr>m_minValue = 0, m_where = [0, 0], m_covar = Some [4, 0, 9], m_cholesky = Some [2, 0, 3]\<rparr>)
   \<and> updateCovariance (*) dpptrf [2, 3] True (FunctionMinimum_ctor 0 [0, 0]) =
     (NoReturnValue,
      \<lparr>m_minValue = 0, m_where = [0, 0], m_covar = Some [4, 0, 9], m_cholesky = Some [2, 0, 3]\<rparr>)
   \<and> getErrors \<lparr>m_minValue = 0, m_where = [0, 0], m_covar = Some [4, 0, 9],
        m_cholesky = Some [2, 0, 3]\<rparr> = Inr [2, 3]
   \<and> FunctionMinimum_ctor_covar False binary64_mul dpptrf 0 [0, 0] [2, 3] True
       = Inl NotPositiveDefinite"
proof -
  let ?fm0 = "FunctionMinimum_ctor 0 [0, 0]"
  let ?fmE = "\<lparr>m_minValue = 0, m_where = [0, 0], m_covar = Some [4, 0, 9],
        m_cholesky = Some [2, 0, 3]\<rparr>"
  have a: "length [2, 3 :: real] = length (m_where ?fm0)"
    by (simp add: FunctionMinimum_ctor_def)
  have b: "\<forall>x\<in>set [2, 3 :: real]. 0 < x" by simp
  have c: "[2, 3 :: real] \<noteq> []" by simp
  have d: "1 + 8 * int (length [2, 3 :: real] * (length [2, 3 :: real] + 1) div 2) \<le> INT_MAX"
    by (simp add: INT_MAX_def)
  obtain c u where cu: "updateCovariance (*) dpptrf [2, 3] True ?fm0 =
            (NoReturnValue, ?fm0\<lparr>m_covar := Some c, m_cholesky := Some u\<rparr>)"
      "getErrors (?fm0\<lparr>m_covar := Some c, m_cholesky := Some u\<rparr>) = Inr [2, 3]"
    using updateCovariance_errors_only [OF a b c d] by blast
  have "?fm0\<lparr>m_covar := Some c, m_cholesky := Some u\<rparr> = ?fmE"
    using cu(1) by (simp only: errors_example_exact) simp
  then have "getErrors ?fmE = Inr [2, 3]" using cu(2) by simp
  moreover have "FunctionMinimum_ctor_covar False binary64_mul dpptrf 0 [0, 0] [2, 3] True
      = Inl NotPositiveDefinite"
    by (simp add: FunctionMinimum_ctor_covar_def errors_example)
  ultimately show ?thesis using errors_example errors_example_exact by simp
qed

text \<open>
  C1: for a positive definite packed covariance \<open>C\<close> of the right length, not empty
  and within the range of \<open>int\<close>, the full-matrix branch of \<open>updateCovariance\<close> stores
  \<open>C\<close> and the factor whenever the primitive reports status zero, as the reference
  routine in exact arithmetic does, and \<open>getErrors\<close> then gives the square roots of
  the diagonal of \<open>C\<close>. But whatever the primitive is, the call ends at the closing
  brace without a \<open>return\<close> statement, so it does not return true, and the constructor
  that tests the value may throw on this covariance.
\<close>

theorem updateCovariance_posdef:
  assumes "length C = length (m_where fm) * (length (m_where fm) + 1) div 2"
    and "posdef (length (m_where fm)) C"
    and "C \<noteq> []" and "1 + 8 * int (length C) \<le> INT_MAX"
  shows "fst (updateCovariance dmul prim C False fm) \<noteq> Returned True
       \<and> (snd (prim (length (m_where fm)) C) = 0 \<longrightarrow>
            updateCovariance dmul prim C False fm =
              (NoReturnValue,
               fm\<lparr>m_cholesky := Some (fst (prim (length (m_where fm)) C)), m_covar := Some C\<rparr>))
       \<and> (\<exists>u. updateCovariance dmul dpptrf C False fm =
              (NoReturnValue, fm\<lparr>m_cholesky := Some u, m_covar := Some C\<rparr>)
            \<and> getErrors (fm\<lparr>m_cholesky := Some u, m_covar := Some C\<rparr>) =
                Inr (map (\<lambda>i. sqrt (C ! (i * (i + 3) div 2))) [0..<length (m_where fm)]))"
proof (intro conjI)
  let ?n = "length (m_where fm)"
  let ?u = "fst (dpptrf ?n C)"
  let ?fm = "fm\<lparr>m_cholesky := Some ?u, m_covar := Some C\<rparr>"
  have len: "length C = tri ?n" using assms(1) by (simp add: tri_def)
  have pos: "0 < ?n"
  proof (rule ccontr)
    assume "\<not> 0 < ?n"
    then have "length C = 0" using len by simp
    with assms(3) show False by simp
  qed
  have g: "\<not> int ?n * (int ?n + 1) > INT_MAX"
    using assms(4) len by (intro order_in_range) simp
  show "fst (updateCovariance dmul prim C False fm) \<noteq> Returned True"
    by (rule updateCovariance_never_true)
  have acc: "\<And>p. snd (p ?n C) = 0 \<Longrightarrow>
      updateCovariance dmul p C False fm =
        (NoReturnValue, fm\<lparr>m_cholesky := Some (fst (p ?n C)), m_covar := Some C\<rparr>)"
  proof -
    fix p :: Primitive assume "snd (p ?n C) = 0"
    then have "choleskyDecomposition p C = Inr (Some (fst (p ?n C)))"
      using choleskyDecomposition_tri [OF len pos assms(4), of p] by simp
    then show "updateCovariance dmul p C False fm =
        (NoReturnValue, fm\<lparr>m_cholesky := Some (fst (p ?n C)), m_covar := Some C\<rparr>)"
      using len g by (simp add: updateCovariance_False)
  qed
  then show "snd (prim ?n C) = 0 \<longrightarrow>
      updateCovariance dmul prim C False fm =
        (NoReturnValue, fm\<lparr>m_cholesky := Some (fst (prim ?n C)), m_covar := Some C\<rparr>)"
    by blast
  have z: "snd (dpptrf ?n C) = 0"
    using len assms(2) by (intro dpptrf_posdef_success) simp_all
  then have upd: "updateCovariance dmul dpptrf C False fm = (NoReturnValue, ?fm)"
    by (rule acc)
  have "dpptrf ?n C = (?u, 0)" using z by (simp add: prod_eq_iff)
  then have fac: "factored C ?u ?n"
    using len by (intro dpptrf_factored) simp_all
  have "getErrors ?fm =
      Inr (map (\<lambda>i. if C ! (i * (i + 3) div 2) > 0 then sqrt (C ! (i * (i + 3) div 2)) else 0)
             [0..<?n])"
    using getErrors_eq [of ?fm C] len by simp
  moreover have "map (\<lambda>i. if C ! (i * (i + 3) div 2) > 0
                          then sqrt (C ! (i * (i + 3) div 2)) else 0) [0..<?n] =
      map (\<lambda>i. sqrt (C ! (i * (i + 3) div 2))) [0..<?n]"
  proof (rule map_cong)
    fix i assume "i \<in> set [0..<?n]"
    then have "i < ?n" by simp
    then have "0 \<le> C ! (i * (i + 3) div 2)"
      using factored_diagonal_nonneg [OF fac] by (simp add: diag_index)
    then show "(if C ! (i * (i + 3) div 2) > 0 then sqrt (C ! (i * (i + 3) div 2)) else 0) =
        sqrt (C ! (i * (i + 3) div 2))"
      by auto
  qed simp
  ultimately show "\<exists>u. updateCovariance dmul dpptrf C False fm =
              (NoReturnValue, fm\<lparr>m_cholesky := Some u, m_covar := Some C\<rparr>)
            \<and> getErrors (fm\<lparr>m_cholesky := Some u, m_covar := Some C\<rparr>) =
                Inr (map (\<lambda>i. sqrt (C ! (i * (i + 3) div 2))) [0..<?n])"
    using upd by auto
qed

theorem updateCovariance_posdef_witness:
  "posdef 2 [4, 2, 10]
   \<and> updateCovariance binary64_mul dpptrf [4, 2, 10] False (FunctionMinimum_ctor 0 [0, 0]) =
     (NoReturnValue,
      \<lparr>m_minValue = 0, m_where = [0, 0], m_covar = Some [4, 2, 10],
       m_cholesky = Some [2, 1, 3]\<rparr>)
   \<and> getErrors \<lparr>m_minValue = 0, m_where = [0, 0], m_covar = Some [4, 2, 10],
        m_cholesky = Some [2, 1, 3]\<rparr> = Inr [2, sqrt 10]
   \<and> FunctionMinimum_ctor_covar False binary64_mul dpptrf 0 [0, 0] [4, 2, 10] False
       = Inl NotPositiveDefinite"
proof -
  let ?fm0 = "FunctionMinimum_ctor 0 [0, 0]"
  let ?fmD = "\<lparr>m_minValue = 0, m_where = [0, 0], m_covar = Some [4, 2, 10],
       m_cholesky = Some [2, 1, 3]\<rparr>"
  have l: "length (m_where ?fm0) = 2" by (simp add: FunctionMinimum_ctor_def)
  have a: "length [4, 2, 10 :: real] = length (m_where ?fm0) * (length (m_where ?fm0) + 1) div 2"
    by (simp add: FunctionMinimum_ctor_def)
  have b: "posdef (length (m_where ?fm0)) [4, 2, 10]"
    unfolding l by (rule posdef_example)
  have c: "[4, 2, 10 :: real] \<noteq> []" by simp
  have d: "1 + 8 * int (length [4, 2, 10 :: real]) \<le> INT_MAX" by (simp add: INT_MAX_def)
  obtain u where u: "updateCovariance binary64_mul dpptrf [4, 2, 10] False ?fm0 =
            (NoReturnValue, ?fm0\<lparr>m_cholesky := Some u, m_covar := Some [4, 2, 10]\<rparr>)"
      "getErrors (?fm0\<lparr>m_cholesky := Some u, m_covar := Some [4, 2, 10]\<rparr>) =
         Inr (map (\<lambda>i. sqrt ([4, 2, 10] ! (i * (i + 3) div 2))) [0..<length (m_where ?fm0)])"
    using updateCovariance_posdef [OF a b c d, of binary64_mul] by blast
  have "?fm0\<lparr>m_cholesky := Some u, m_covar := Some [4, 2, 10]\<rparr> = ?fmD"
    using u(1) by (simp only: full_example) simp
  then have "getErrors ?fmD =
      Inr (map (\<lambda>i. sqrt ([4, 2, 10] ! (i * (i + 3) div 2))) [0..<length (m_where ?fm0)])"
    using u(2) by simp
  then have "getErrors ?fmD = Inr [2, sqrt 10]"
    by (simp add: l upt_rec)
  moreover have "FunctionMinimum_ctor_covar False binary64_mul dpptrf 0 [0, 0] [4, 2, 10] False
      = Inl NotPositiveDefinite"
    by (simp add: FunctionMinimum_ctor_covar_def full_example)
  ultimately show ?thesis using full_example posdef_example by simp
qed

end
